theory Spec2Isabelle
  imports Complex_Main "HOL-Library.Char_ord" "HOL-Library.List_Lexorder" "HOL-Library.Multiset"
begin

section \<open>Text helpers of the Python runtime\<close>

text \<open>
  Python strings are modelled as \<^typ>\<open>string\<close>: one \<^typ>\<open>char\<close> per code point, for
  code points below 256. \<open>str.strip()\<close> removes the characters for which
  \<open>str.isspace()\<close> holds; below 256 these are the twelve listed here.
\<close>

definition isspace :: "char \<Rightarrow> bool" where
  "isspace c = (c = CHR 0x09 \<or> c = CHR 0x0A \<or> c = CHR 0x0B \<or> c = CHR 0x0C \<or> c = CHR 0x0D
     \<or> c = CHR 0x1C \<or> c = CHR 0x1D \<or> c = CHR 0x1E \<or> c = CHR 0x1F \<or> c = CHR 0x20
     \<or> c = CHR 0x85 \<or> c = CHR 0xA0)"

definition lstrip :: "string \<Rightarrow> string" where
  "lstrip s = dropWhile isspace s"

definition rstrip :: "string \<Rightarrow> string" where
  "rstrip s = rev (dropWhile isspace (rev s))"

definition strip :: "string \<Rightarrow> string" where
  "strip s = rstrip (lstrip s)"

text \<open>\<open>s.split(d)\<close> for a one-character separator: never empty, \<open>''.split(d) = ['']\<close>.\<close>

fun split_on :: "char \<Rightarrow> string \<Rightarrow> string list" where
  "split_on d [] = [[]]"
| "split_on d (c # cs) =
     (if c = d then [] # split_on d cs
      else (case split_on d cs of
              l # ls \<Rightarrow> (c # l) # ls
            | [] \<Rightarrow> [[c]]))"

definition startswith :: "string \<Rightarrow> string \<Rightarrow> bool" where
  "startswith s p = (take (length p) s = p)"

section \<open>markdown_to_html\<close>

text \<open>
  \<open>re.sub(r'\*\*(.*?)\*\*', r'<strong>\1</strong>', text)\<close>. After an opening \<open>**\<close> the
  lazy group grows one character at a time, never over a newline, until a closing \<open>**\<close>
  follows: \<open>find_close\<close> returns the group and the text after the closing pair, or
  \<open>None\<close> when the attempt fails. The scan then resumes after the match, or one
  character further when there was none.
\<close>

fun find_close :: "string \<Rightarrow> (string \<times> string) option" where
  "find_close [] = None"
| "find_close (c # cs) =
     (if c = CHR ''*'' \<and> take 1 cs = ''*'' then Some ([], drop 1 cs)
      else if c = CHR 0x0A then None
      else (case find_close cs of
              None \<Rightarrow> None
            | Some (inner, rest) \<Rightarrow> Some (c # inner, rest)))"

function bold_sub :: "string \<Rightarrow> string" where
  "bold_sub [] = []"
| "bold_sub [c] = [c]"
| "bold_sub (c # d # cs) =
     (if c = CHR ''*'' \<and> d = CHR ''*'' then
        (case find_close cs of
           Some (inner, rest) \<Rightarrow> ''<strong>'' @ inner @ ''</strong>'' @ bold_sub rest
         | None \<Rightarrow> c # bold_sub (d # cs))
      else c # bold_sub (d # cs))"
  by pat_completeness auto
termination
proof -
  have shorter: "find_close cs = Some (inner, rest) \<Longrightarrow> length rest < length cs"
    for cs inner rest
    by (induction cs arbitrary: inner rest) (auto split: if_splits option.splits)
  show ?thesis
    by (relation "measure length") (auto dest: shorter)
qed

text \<open>One pass of the loop body over a line; the state is \<open>(html_output, in_list)\<close>.\<close>

fun md_line :: "string list \<times> bool \<Rightarrow> string \<Rightarrow> string list \<times> bool" where
  "md_line (html_output, in_list) raw =
     (let line = strip raw in
      if line = [] then (html_output, in_list)
      else if startswith line ''* '' \<or> startswith line ''- '' then
        (if \<not> in_list
         then (html_output @ [''<ul>''] @ [''<li>'' @ drop 2 line @ ''</li>''], True)
         else (html_output @ [''<li>'' @ drop 2 line @ ''</li>''], in_list))
      else
        (if in_list
         then (html_output @ [''</ul>''] @ [''<p>'' @ line @ ''</p>''], False)
         else (html_output @ [''<p>'' @ line @ ''</p>''], in_list)))"

definition markdown_to_html :: "string \<Rightarrow> string" where
  "markdown_to_html text =
     (let text1 = bold_sub text;
          lines = split_on (CHR 0x0A) (strip text1);
          (html_output, in_list) = foldl md_line ([], False) lines
      in concat (if in_list then html_output @ [''</ul>''] else html_output))"

section \<open>Configuration and data model\<close>

text \<open>The dictionary \<open>CITIES\<close>, in insertion order (the order Python iterates it in).\<close>

definition CITIES :: "(string \<times> string) list" where
  "CITIES = [(''SYD'', ''Sydney''), (''MEL'', ''Melbourne''), (''BNE'', ''Brisbane''),
     (''PER'', ''Perth''), (''ADL'', ''Adelaide''), (''CBR'', ''Canberra''), (''HBA'', ''Hobart'')]"

text \<open>
  The raw offer as decoded from the provider's JSON. A field is \<open>None\<close> when its key is
  missing, which makes the subscript raise \<open>KeyError\<close>; an empty list makes \<open>[0]\<close> raise
  \<open>IndexError\<close>.
\<close>

datatype py_error = KeyError | IndexError | ValueError

datatype segment = Segment (departure_at: "string option")

datatype itinerary = Itinerary (segments: "segment list option")

record raw_offer =
  price_total :: "string option"
  validatingAirlineCodes :: "string list option"
  itineraries :: "itinerary list option"

text \<open>
  A float64 value is \<open>NaN\<close> or a number. The numbers (infinities included) are an
  arbitrary linear order \<^typ>\<open>'v\<close>: nothing is said here about which doubles exist or how
  their arithmetic rounds.
\<close>

datatype 'v pyfloat = NaN | Num 'v

text \<open>
  What the program takes from Python, NumPy and pandas on floats, as parameters:
  \<open>py_float\<close> is the builtin \<open>float()\<close> on a string (it raises \<open>ValueError\<close> or returns a
  value, which may be \<open>NaN\<close>); \<open>mean\<close> is the float64 mean that \<open>groupby(...).mean()\<close> computes
  from the prices of one group, taken in frame order; \<open>round2\<close> is what \<open>round(2)\<close> makes of a
  number (it leaves \<open>NaN\<close> as it is and turns no number into \<open>NaN\<close>).
\<close>

record 'v arithmetic =
  py_float :: "string \<Rightarrow> py_error + 'v pyfloat"
  mean :: "'v pyfloat list \<Rightarrow> 'v pyfloat"
  round2 :: "'v \<Rightarrow> 'v"

text \<open>A row of the DataFrame built by \<open>process_flight_data\<close>.\<close>

record 'v flight_record =
  origin :: string
  destination :: string
  price :: "'v pyfloat"
  airline :: string
  departure_date :: string

section \<open>process_flight_data\<close>

definition subscript0 :: "'a list \<Rightarrow> py_error + 'a" where
  "subscript0 xs = (case xs of [] \<Rightarrow> Inl IndexError | x # _ \<Rightarrow> Inr x)"

definition getitem :: "'a option \<Rightarrow> py_error + 'a" where
  "getitem v = (case v of None \<Rightarrow> Inl KeyError | Some x \<Rightarrow> Inr x)"

definition bind_err :: "py_error + 'a \<Rightarrow> ('a \<Rightarrow> py_error + 'b) \<Rightarrow> py_error + 'b" where
  "bind_err m f = (case m of Inl e \<Rightarrow> Inl e | Inr x \<Rightarrow> f x)"

text \<open>\<open>offer['itineraries'][0]['segments'][0]['departure']['at']\<close>\<close>

definition first_departure :: "raw_offer \<Rightarrow> py_error + string" where
  "first_departure offer =
     bind_err (getitem (itineraries offer)) (\<lambda>its.
     bind_err (subscript0 its) (\<lambda>it.
     bind_err (getitem (segments it)) (\<lambda>segs.
     bind_err (subscript0 segs) (\<lambda>seg.
       getitem (departure_at seg)))))"

text \<open>
  One element of the list comprehension. The dictionary display evaluates its values in
  the order written: price, airline, departure date; the first failure is the exception
  raised.
\<close>

definition normalize_offer ::
  "'v arithmetic \<Rightarrow> string \<Rightarrow> string \<Rightarrow> raw_offer \<Rightarrow> py_error + 'v flight_record" where
  "normalize_offer a origin_code destination_code offer =
     bind_err (getitem (price_total offer)) (\<lambda>total.
     bind_err (py_float a total) (\<lambda>p.
     bind_err (getitem (validatingAirlineCodes offer)) (\<lambda>codes.
     bind_err (subscript0 codes) (\<lambda>code.
     bind_err (first_departure offer) (\<lambda>stamp.
     bind_err (subscript0 (split_on (CHR ''T'') stamp)) (\<lambda>day.
       Inr \<lparr>origin = origin_code, destination = destination_code, price = p,
            airline = code, departure_date = day\<rparr>))))))"

fun normalize_all ::
  "'v arithmetic \<Rightarrow> string \<Rightarrow> string \<Rightarrow> raw_offer list \<Rightarrow> py_error + 'v flight_record list" where
  "normalize_all a origin_code destination_code [] = Inr []"
| "normalize_all a origin_code destination_code (offer # offers) =
     bind_err (normalize_offer a origin_code destination_code offer) (\<lambda>r.
     bind_err (normalize_all a origin_code destination_code offers) (\<lambda>rs. Inr (r # rs)))"

text \<open>A DataFrame is its list of rows; \<open>pd.DataFrame()\<close> is the empty list.\<close>

definition process_flight_data ::
  "'v arithmetic \<Rightarrow> raw_offer list \<Rightarrow> string \<Rightarrow> string \<Rightarrow> py_error + 'v flight_record list" where
  "process_flight_data a flight_data origin_code destination_code =
     (if flight_data = [] then Inr []
      else normalize_all a origin_code destination_code flight_data)"

section \<open>The pandas operations used by the aggregations\<close>

text \<open>
  A Series is the list of its (index label, value) pairs in row order.
  \<open>df.groupby(key)\<close> sorts the group keys (\<open>sort=True\<close> is the default) and keeps the
  rows of a group in their order in the frame.
\<close>

type_synonym 'v series = "(string \<times> 'v pyfloat) list"

definition group_keys :: "('v flight_record \<Rightarrow> string) \<Rightarrow> 'v flight_record list \<Rightarrow> string list" where
  "group_keys key df = sort (remdups (map key df))"

definition groupby ::
  "('v flight_record \<Rightarrow> string) \<Rightarrow> 'v flight_record list \<Rightarrow> (string \<times> 'v flight_record list) list" where
  "groupby key df = map (\<lambda>k. (k, filter (\<lambda>r. key r = k) df)) (group_keys key df)"

definition groupby_price_mean ::
  "'v arithmetic \<Rightarrow> ('v flight_record \<Rightarrow> string) \<Rightarrow> 'v flight_record list \<Rightarrow> 'v series" where
  "groupby_price_mean a key df = map (\<lambda>(k, rows). (k, mean a (map price rows))) (groupby key df)"

text \<open>\<open>Series.round(2)\<close>\<close>

definition round_float :: "'v arithmetic \<Rightarrow> 'v pyfloat \<Rightarrow> 'v pyfloat" where
  "round_float a v = (case v of NaN \<Rightarrow> NaN | Num x \<Rightarrow> Num (round2 a x))"

definition round_series :: "'v arithmetic \<Rightarrow> 'v series \<Rightarrow> 'v series" where
  "round_series a s = map (\<lambda>(k, v). (k, round_float a v)) s"

text \<open>
  \<open>Series.sort_values()\<close>, ascending with \<open>na_position='last'\<close>: the rows whose value is a
  number, sorted by value, then the \<open>NaN\<close> rows in the order they had. On the short series
  of this program (at most seven origins) the default sort runs as an insertion sort, which
  leaves rows of equal value in the order they had: \<^const>\<open>sort_key\<close> does the same.
  \<open>Series.sort_index()\<close> sorts by label.
\<close>

definition numbers :: "('k \<times> 'v pyfloat) list \<Rightarrow> ('k \<times> 'v) list" where
  "numbers s = List.map_filter (\<lambda>(k, v). case v of NaN \<Rightarrow> None | Num x \<Rightarrow> Some (k, x)) s"

definition sort_values :: "('v::linorder) series \<Rightarrow> 'v series" where
  "sort_values s =
     map (\<lambda>(k, x). (k, Num x)) (sort_key snd (numbers s)) @ filter (\<lambda>(k, v). v = NaN) s"

definition sort_index :: "'v series \<Rightarrow> 'v series" where
  "sort_index s = sort_key fst s"

text \<open>
  \<open>df.loc[df.groupby('departure_date')['price'].idxmin()]\<close>: for each date, in sorted
  date order, the first row of minimal price, \<open>NaN\<close> prices being skipped. A date whose
  prices are all \<open>NaN\<close> has no such row and the lookup raises.
\<close>

fun first_min :: "'r \<times> ('v::linorder) \<Rightarrow> ('r \<times> 'v) list \<Rightarrow> 'r" where
  "first_min best [] = fst best"
| "first_min best (r # rs) = first_min (if snd r < snd best then r else best) rs"

definition idxmin_group :: "('v::linorder) flight_record list \<Rightarrow> py_error + 'v flight_record" where
  "idxmin_group rows =
     (case numbers (map (\<lambda>r. (r, price r)) rows) of
        [] \<Rightarrow> Inl KeyError
      | best # rest \<Rightarrow> Inr (first_min best rest))"

fun collect :: "(py_error + 'r) list \<Rightarrow> py_error + 'r list" where
  "collect [] = Inr []"
| "collect (m # ms) = bind_err m (\<lambda>r. bind_err (collect ms) (\<lambda>rs. Inr (r # rs)))"

definition idxmin_rows :: "('v::linorder) flight_record list \<Rightarrow> py_error + 'v flight_record list" where
  "idxmin_rows df = collect (map (\<lambda>(k, rows). idxmin_group rows) (groupby departure_date df))"

section \<open>The two aggregations\<close>

text \<open>
  \<open>popular_routes_df.groupby('origin')['price'].mean().sort_values().round(2)\<close>:
  \<open>route_means\<close> is the chain up to \<open>sort_values()\<close>, before the rounding.
\<close>

definition route_means :: "('v::linorder) arithmetic \<Rightarrow> 'v flight_record list \<Rightarrow> 'v series" where
  "route_means a df = sort_values (groupby_price_mean a origin df)"

definition route_aggregation :: "('v::linorder) arithmetic \<Rightarrow> 'v flight_record list \<Rightarrow> 'v series" where
  "route_aggregation a df = round_series a (route_means a df)"



text \<open>\<open>price_trends_df.groupby('departure_date')['price'].mean().round(2).sort_index()\<close>\<close>

definition trend_aggregation :: "'v arithmetic \<Rightarrow> 'v flight_record list \<Rightarrow> 'v series" where
  "trend_aggregation a df = sort_index (round_series a (groupby_price_mean a departure_date df))"

section \<open>The outside world\<close>

text \<open>
  The two providers, the clock, the table renderer and the float arithmetic are parameters;
  a provider's answer depends on the request only. \<open>date_after w i\<close> is
  \<open>(date.today() + timedelta(days=i)).strftime("%Y-%m-%d")\<close> and \<open>to_string w\<close> is
  \<open>DataFrame.to_string\<close>. Every outbound request is appended to a log of calls, so that
  "no call is made" is a statement about the log.
\<close>

datatype 'a fetched = RequestException | Returned 'a

datatype generated = GenerationFailed | NoParts | ResponseText string

datatype call = TokenRequest | Search string string string string | Generate string

record 'v world =
  GEMINI_API_KEY :: "string option"
  token_endpoint :: "string option fetched"
  search_endpoint :: "string \<Rightarrow> string \<Rightarrow> string \<Rightarrow> string \<Rightarrow> raw_offer list fetched"
  generate_content :: "string \<Rightarrow> generated"
  date_after :: "nat \<Rightarrow> string"
  to_string :: "'v series \<Rightarrow> string"
  arith :: "'v arithmetic"

definition get_amadeus_access_token :: "'v world \<Rightarrow> call list \<Rightarrow> string option \<times> call list" where
  "get_amadeus_access_token w calls =
     (case token_endpoint w of
        RequestException \<Rightarrow> (None, calls @ [TokenRequest])
      | Returned t \<Rightarrow> (t, calls @ [TokenRequest]))"

definition search_flight_deals ::
  "'v world \<Rightarrow> string \<Rightarrow> string \<Rightarrow> string \<Rightarrow> string \<Rightarrow> call list \<Rightarrow> raw_offer list \<times> call list" where
  "search_flight_deals w access_token origin_code destination_code day calls =
     (case search_endpoint w access_token origin_code destination_code day of
        RequestException \<Rightarrow> ([], calls @ [Search access_token origin_code destination_code day])
      | Returned offers \<Rightarrow> (offers, calls @ [Search access_token origin_code destination_code day]))"

text \<open>Python's truth value of an optional string: \<open>None\<close> and \<open>''\<close> are false.\<close>

definition truthy :: "string option \<Rightarrow> bool" where
  "truthy v = (case v of None \<Rightarrow> False | Some s \<Rightarrow> s \<noteq> [])"

section \<open>get_ai_insights\<close>

definition not_configured :: string where
  "not_configured = ''<p>Gemini API key not configured. Insights are unavailable.</p>''"

definition no_data :: string where
  "no_data = ''<p>No flight data was available to generate insights.</p>''"

definition blocked :: string where
  "blocked = ''<p>The AI response was blocked for safety reasons. Please try a different query.</p>''"

definition unavailable :: string where
  "unavailable = ''<p>Could not generate AI insights. The Gemini API might be unavailable or the key is invalid.</p>''"

text \<open>The prompt: the f-string's text before and after the rendered table.\<close>

definition prompt_head :: string where
  \<open>prompt_head = ''\<newline>    You are a market analyst for a chain of hostels in Australia.\<newline>    Your goal is to help the marketing team understand airline booking trends to better target customers.\<newline>    Based on the following summary of average flight prices from various cities, provide actionable insights.\<newline>\<newline>    Data Summary (Average one-way price in AUD to the destination):\<newline>    ''\<close>

definition prompt_tail :: string where
  \<open>prompt_tail = ''\<newline>\<newline>    Please provide a brief summary as a list of key takeaways. Use bullet points (starting with '*') for list items.\<newline>    For the "General advice" section, please make "**General Marketing Advice:**" a standalone bolded line, followed by a separate bulleted list of the specific advice points.\<newline>\<newline>    Format your response using simple markdown. Use bullet points (starting with '*') for lists and bold text for emphasis. Do not use headings.\<newline>    ''\<close>

definition get_ai_insights :: "'v world \<Rightarrow> 'v series \<Rightarrow> call list \<Rightarrow> string \<times> call list" where
  "get_ai_insights w df calls =
     (if \<not> truthy (GEMINI_API_KEY w) \<or> GEMINI_API_KEY w = Some ''YOUR_GEMINI_API_KEY''
      then (not_configured, calls)
      else if df = [] then (no_data, calls)
      else (let prompt = prompt_head @ to_string w df @ prompt_tail in
            case generate_content w prompt of
              GenerationFailed \<Rightarrow> (unavailable, calls @ [Generate prompt])
            | NoParts \<Rightarrow> (blocked, calls @ [Generate prompt])
            | ResponseText t \<Rightarrow> (markdown_to_html t, calls @ [Generate prompt])))"

section \<open>The 30-day trend fetch\<close>

text \<open>
  The loop \<open>for i in range(1, 31)\<close> of both routes, as a recursion over the day offsets.
  The state is the accumulated frame and the log; an exception from
  \<open>process_flight_data\<close> or from the \<open>idxmin\<close> lookup leaves the loop at once.
\<close>

fun trend_loop ::
  "('v::linorder) world \<Rightarrow> string \<Rightarrow> string \<Rightarrow> string \<Rightarrow> nat list \<Rightarrow> 'v flight_record list
     \<Rightarrow> call list \<Rightarrow> (py_error + 'v flight_record list) \<times> call list" where
  "trend_loop w access_token origin_code destination_code [] price_trends_df calls =
     (Inr price_trends_df, calls)"
| "trend_loop w access_token origin_code destination_code (i # days) price_trends_df calls =
     (case search_flight_deals w access_token origin_code destination_code (date_after w i) calls of
        (flight_data, calls1) \<Rightarrow>
          (if flight_data \<noteq> [] then
             (case process_flight_data (arith w) flight_data origin_code destination_code of
                Inl err \<Rightarrow> (Inl err, calls1)
              | Inr df \<Rightarrow>
                  (if df \<noteq> [] then
                     (case idxmin_rows df of
                        Inl err \<Rightarrow> (Inl err, calls1)
                      | Inr min_price_df \<Rightarrow>
                          trend_loop w access_token origin_code destination_code days
                            (price_trends_df @ min_price_df) calls1)
                   else trend_loop w access_token origin_code destination_code days
                          price_trends_df calls1))
           else trend_loop w access_token origin_code destination_code days price_trends_df calls1))"

section \<open>The route /api/price-trend\<close>

text \<open>
  What a view returns: a JSON error with its status, the trend JSON, the page route's
  plain-text error with its status, the rendered page (the arguments handed to the
  template), or an exception that leaves the view.
\<close>

record 'v page =
  cities :: "(string \<times> string) list"
  selected_destination :: string
  price_trends :: "(string list \<times> 'v pyfloat list) option"
  popular_routes :: "(string list \<times> 'v pyfloat list \<times> string list) option"
  ai_summary :: string
  trend_chart_title :: string

datatype 'v response =
    Json_error nat string
  | Json_trend "string list" "'v pyfloat list" string
  | Text_error nat string
  | Page "'v page"
  | Unhandled py_error

text \<open>
  \<open>CITIES.get(code)\<close> inside an f-string: a missing code prints as \<open>None\<close>. In the two
  views \<^const>\<open>the\<close> is applied only to values that have passed the truth test.
\<close>

definition cities_get_str :: "string \<Rightarrow> string" where
  "cities_get_str code = (case map_of CITIES code of None \<Rightarrow> ''None'' | Some name \<Rightarrow> name)"

definition api_price_trend ::
  "('v::linorder) world \<Rightarrow> string option \<Rightarrow> string option \<Rightarrow> call list
     \<Rightarrow> 'v response \<times> call list" where
  "api_price_trend w origin_arg destination_arg calls =
     (if \<not> truthy origin_arg \<or> \<not> truthy destination_arg
      then (Json_error 400 ''Missing origin or destination parameters'', calls)
      else
        (case get_amadeus_access_token w calls of
           (access_token, calls1) \<Rightarrow>
             (if \<not> truthy access_token
              then (Json_error 500 ''Could not authenticate with Amadeus API'', calls1)
              else
                (case trend_loop w (the access_token) (the origin_arg) (the destination_arg)
                        [1..<31] [] calls1 of
                   (Inl err, calls2) \<Rightarrow> (Unhandled err, calls2)
                 | (Inr price_trends_df, calls2) \<Rightarrow>
                     (if price_trends_df = []
                      then (Json_trend [] []
                              (''No Trend Data for '' @ the origin_arg @ '' to '' @ the destination_arg),
                            calls2)
                      else
                        (Json_trend (map fst (trend_aggregation (arith w) price_trends_df))
                                    (map snd (trend_aggregation (arith w) price_trends_df))
                                    (''Daily Price Trend: '' @ cities_get_str (the origin_arg)
                                       @ '' to '' @ cities_get_str (the destination_arg)),
                         calls2))))))"

section \<open>The page route\<close>

definition origin_cities :: "string \<Rightarrow> string list" where
  "origin_cities destination_city = filter (\<lambda>code. code \<noteq> destination_city) (map fst CITIES)"

text \<open>\<open>CITIES.get(code, code)\<close>\<close>

definition cities_get_default :: "string \<Rightarrow> string" where
  "cities_get_default code = (case map_of CITIES code of None \<Rightarrow> code | Some name \<Rightarrow> name)"

fun snapshot_loop ::
  "'v world \<Rightarrow> string \<Rightarrow> string \<Rightarrow> string \<Rightarrow> string list \<Rightarrow> 'v flight_record list \<Rightarrow> call list
     \<Rightarrow> (py_error + 'v flight_record list) \<times> call list" where
  "snapshot_loop w access_token destination_city snapshot_date [] popular_routes_df calls =
     (Inr popular_routes_df, calls)"
| "snapshot_loop w access_token destination_city snapshot_date (origin_code # rest) popular_routes_df calls =
     (case search_flight_deals w access_token origin_code destination_city snapshot_date calls of
        (flight_data, calls1) \<Rightarrow>
          (case process_flight_data (arith w) flight_data origin_code destination_city of
             Inl err \<Rightarrow> (Inl err, calls1)
           | Inr df \<Rightarrow>
               snapshot_loop w access_token destination_city snapshot_date rest
                 (if df \<noteq> [] then popular_routes_df @ df else popular_routes_df) calls1))"

definition no_data_found :: string where
  "no_data_found = ''No data found for the selected destination. This may be due to the route having no availability in the next month or an API error.''"

definition render_page ::
  "('v::linorder) world \<Rightarrow> string \<Rightarrow> string list \<Rightarrow> 'v flight_record list \<Rightarrow> 'v flight_record list
     \<Rightarrow> call list \<Rightarrow> 'v response \<times> call list" where
  "render_page w destination_city origins popular_routes_df price_trends_df calls =
     (let price_trends_data =
            (if price_trends_df \<noteq> []
             then Some (map fst (trend_aggregation (arith w) price_trends_df),
                        map snd (trend_aggregation (arith w) price_trends_df))
             else None);
          title =
            (if price_trends_df \<noteq> []
             then ''Daily Price Trend: ''
                    @ (case origins of [] \<Rightarrow> ''None'' | trend_origin_city # _ \<Rightarrow> cities_get_str trend_origin_city)
                    @ '' to '' @ cities_get_str destination_city
             else ''Daily Price Trend (Next Month)'');
          popular_routes_data =
            (if popular_routes_df \<noteq> []
             then Some (map (\<lambda>(origin_code, _). cities_get_default origin_code @ '' -> ''
                                 @ cities_get_default destination_city)
                            (route_aggregation (arith w) popular_routes_df),
                        map snd (route_aggregation (arith w) popular_routes_df),
                        map fst (route_aggregation (arith w) popular_routes_df))
             else None);
          summary =
            (if popular_routes_df \<noteq> []
             then get_ai_insights w (route_aggregation (arith w) popular_routes_df) calls
             else (no_data_found, calls))
      in (Page \<lparr>cities = CITIES, selected_destination = destination_city,
                 price_trends = price_trends_data, popular_routes = popular_routes_data,
                 ai_summary = fst summary, trend_chart_title = title\<rparr>,
          snd summary))"

definition index ::
  "('v::linorder) world \<Rightarrow> string option \<Rightarrow> call list \<Rightarrow> 'v response \<times> call list" where
  "index w destination_field calls =
     (let destination_city = (case destination_field of None \<Rightarrow> ''SYD'' | Some d \<Rightarrow> d);
          origins = origin_cities destination_city
      in case get_amadeus_access_token w calls of
           (access_token, calls1) \<Rightarrow>
             (if \<not> truthy access_token
              then (Text_error 500 ''Error: Could not authenticate with Amadeus API. Please check your API credentials in app.py.'', calls1)
              else
                (case snapshot_loop w (the access_token) destination_city (date_after w 1)
                        origins [] calls1 of
                   (Inl err, calls2) \<Rightarrow> (Unhandled err, calls2)
                 | (Inr popular_routes_df, calls2) \<Rightarrow>
                     (case (case origins of
                              [] \<Rightarrow> (Inr [], calls2)
                            | trend_origin_city # _ \<Rightarrow>
                                trend_loop w (the access_token) trend_origin_city destination_city
                                  [1..<31] [] calls2) of
                        (Inl err, calls3) \<Rightarrow> (Unhandled err, calls3)
                      | (Inr price_trends_df, calls3) \<Rightarrow>
                          render_page w destination_city origins popular_routes_df
                            price_trends_df calls3))))"

section \<open>Predicates used in the statements\<close>

text \<open>
  An offer is priced when the normalizer accepts it (every key and list element it reads is
  there and \<open>float()\<close> returns on the total) and the price it gets is a number.
\<close>

definition priced :: "'v arithmetic \<Rightarrow> raw_offer \<Rightarrow> bool" where
  "priced a offer =
     (case normalize_offer a [] [] offer of Inl _ \<Rightarrow> False | Inr r \<Rightarrow> price r \<noteq> NaN)"

text \<open>Ascending order of float values with \<open>NaN\<close> last: \<open>sorted_wrt float_le\<close>.\<close>

definition float_le :: "('v::linorder) pyfloat \<Rightarrow> 'v pyfloat \<Rightarrow> bool" where
  "float_le u v =
     (case v of NaN \<Rightarrow> True | Num y \<Rightarrow> (case u of NaN \<Rightarrow> False | Num x \<Rightarrow> x \<le> y))"


text \<open>The mean price of the records of a frame that have a given label.\<close>

definition group_mean ::
  "'v arithmetic \<Rightarrow> ('v flight_record \<Rightarrow> string) \<Rightarrow> 'v flight_record list \<Rightarrow> string \<Rightarrow> 'v pyfloat" where
  "group_mean a key df k = mean a (map price (filter (\<lambda>r. key r = k) df))"

text \<open>
  The records of tomorrow's offers from the given origins, origin after origin, as far as
  the normalizer accepts them.
\<close>

definition snapshot_frame ::
  "'v world \<Rightarrow> string \<Rightarrow> string \<Rightarrow> string list \<Rightarrow> 'v flight_record list" where
  "snapshot_frame w access_token destination_city origins =
     concat (map (\<lambda>origin_code.
        case process_flight_data (arith w)
               (fst (search_flight_deals w access_token origin_code destination_city (date_after w 1) []))
               origin_code destination_city of
          Inl _ \<Rightarrow> []
        | Inr df \<Rightarrow> df) origins)"

text \<open>
  A line is a list item when, stripped of surrounding whitespace, it starts with one of the
  two markers: this is the test of the loop body. The non-blank lines of a text are its
  stripped lines that are not empty.
\<close>

definition is_list_item :: "string \<Rightarrow> bool" where
  "is_list_item line = (startswith line ''* '' \<or> startswith line ''- '')"

definition nonblank_lines :: "string \<Rightarrow> string list" where
  "nonblank_lines text = filter (\<lambda>l. l \<noteq> []) (map strip (split_on (CHR 0x0A) text))"

definition ends_with_list_item :: "string \<Rightarrow> bool" where
  "ends_with_list_item text =
     (nonblank_lines text \<noteq> [] \<and> is_list_item (last (nonblank_lines text)))"

text \<open>
  The ISO calendar-date form \<open>YYYY-MM-DD\<close>, and a timestamp that starts with such a date
  followed by the separator \<open>T\<close>.
\<close>

definition is_digit :: "char \<Rightarrow> bool" where
  "is_digit c = (48 \<le> (of_char c :: nat) \<and> (of_char c :: nat) \<le> 57)"

fun iso_date :: "string \<Rightarrow> bool" where
  "iso_date [y1, y2, y3, y4, a, m1, m2, b, d1, d2] =
     (is_digit y1 \<and> is_digit y2 \<and> is_digit y3 \<and> is_digit y4 \<and> a = CHR ''-'' \<and>
      is_digit m1 \<and> is_digit m2 \<and> b = CHR ''-'' \<and> is_digit d1 \<and> is_digit d2)"
| "iso_date _ = False"

definition iso_timestamp :: "string \<Rightarrow> bool" where
  "iso_timestamp s = (iso_date (take 10 s) \<and> take 1 (drop 10 s) = ''T'')"

text \<open>A response with a 4xx status.\<close>

fun client_error :: "'v response \<Rightarrow> bool" where
  "client_error (Json_error status _) = (400 \<le> status \<and> status < 500)"
| "client_error (Text_error status _) = (400 \<le> status \<and> status < 500)"
| "client_error _ = False"

section \<open>Sample inputs\<close>

text \<open>
  An arithmetic for the samples, over the rationals. \<open>sample_float\<close> knows the three totals
  that the samples use. \<open>sample_mean\<close> and \<open>sample_round2\<close> compute exactly; on the sample
  frames every price, sum, mean and hundredfold is a binary fraction that float64 holds
  exactly, so that float64 arithmetic gives the same values there.
\<close>

definition sample_float :: "string \<Rightarrow> py_error + rat pyfloat" where
  "sample_float s =
     (if s = ''123.5'' then Inr (Num (247 / 2))
      else if s = ''-5.00'' then Inr (Num (- 5))
      else if s = ''nan'' then Inr NaN
      else Inl ValueError)"

definition sample_mean :: "rat pyfloat list \<Rightarrow> rat pyfloat" where
  "sample_mean vs =
     (case List.map_filter (\<lambda>v. case v of NaN \<Rightarrow> None | Num x \<Rightarrow> Some x) vs of
        [] \<Rightarrow> NaN
      | x # xs \<Rightarrow> Num (sum_list (x # xs) / of_nat (length (x # xs))))"

definition round_half_even :: "rat \<Rightarrow> int" where
  "round_half_even x =
     (let f = \<lfloor>x\<rfloor> in
      if x - of_int f < 1 / 2 then f
      else if 1 / 2 < x - of_int f then f + 1
      else if even f then f else f + 1)"

definition sample_round2 :: "rat \<Rightarrow> rat" where
  "sample_round2 x = of_int (round_half_even (x * 100)) / 100"

definition sample_arithmetic :: "rat arithmetic" where
  "sample_arithmetic = \<lparr>py_float = sample_float, mean = sample_mean, round2 = sample_round2\<rparr>"

definition sample_date :: "nat \<Rightarrow> string" where
  "sample_date i = ''2025-01-'' @ [char_of (48 + i div 10), char_of (48 + i mod 10)]"

text \<open>A world without a text-generation key whose pricing provider has no offers.\<close>

definition quiet_world :: "rat world" where
  "quiet_world = \<lparr>GEMINI_API_KEY = None, token_endpoint = Returned (Some ''token''),
     search_endpoint = (\<lambda>_ _ _ _. Returned []),
     generate_content = (\<lambda>_. ResponseText ''* A''),
     date_after = sample_date, to_string = (\<lambda>_. []), arith = sample_arithmetic\<rparr>"

definition sample_record :: "string \<Rightarrow> string \<Rightarrow> rat \<Rightarrow> string \<Rightarrow> rat flight_record" where
  "sample_record oc dc p day =
     \<lparr>origin = oc, destination = dc, price = Num p, airline = ''QF'', departure_date = day\<rparr>"

definition sample_offer :: "string \<Rightarrow> string \<Rightarrow> raw_offer" where
  "sample_offer amount stamp =
     \<lparr>price_total = Some amount, validatingAirlineCodes = Some [''QF''],
      itineraries = Some [Itinerary (Some [Segment (Some stamp)])]\<rparr>"


text \<open>
  Five records for destination MEL, in the order in which the page route collects them.
  12801 / 128 is the price 100.0078125.
\<close>

definition mixed_records :: "rat flight_record list" where
  "mixed_records = [sample_record ''SYD'' ''MEL'' 250 ''2025-01-02'',
                    sample_record ''BNE'' ''MEL'' 100 ''2025-01-02'',
                    sample_record ''BNE'' ''MEL'' (12801 / 128) ''2025-01-02'',
                    sample_record ''PER'' ''MEL'' 100 ''2025-01-02'',
                    sample_record ''ADL'' ''MEL'' 250 ''2025-01-02'']"


definition open_list_text :: string where
  "open_list_text = ''Tips:\<newline>- book **early**\<newline>- fly midweek\<newline>''"

section \<open>The insight generator without a credential\<close>

text \<open>
  C6. When the text-generation credential is absent (unset, empty or the placeholder
  value), the insight generator returns exactly the fixed "not configured" paragraph and
  the log of outbound calls is unchanged, whatever aggregation table is passed in.
\<close>

theorem insights_not_configured:
  assumes "GEMINI_API_KEY w = None \<or> GEMINI_API_KEY w = Some [] \<or>
           GEMINI_API_KEY w = Some ''YOUR_GEMINI_API_KEY''"
  shows "get_ai_insights w df calls = (not_configured, calls)"
  using assms by (auto simp: get_ai_insights_def truthy_def)

theorem insights_not_configured_witness:
  "get_ai_insights quiet_world [(''MEL'', Num 200)] [] = (not_configured, [])"
  by (rule insights_not_configured) (simp add: quiet_world_def)

text \<open>
  C9. The credential check comes before the empty-table check: without a credential, an
  empty aggregation table gives the "not configured" paragraph, which is not the
  "no data" paragraph.
\<close>

theorem credential_check_before_empty_check:
  assumes "\<not> truthy (GEMINI_API_KEY w) \<or> GEMINI_API_KEY w = Some ''YOUR_GEMINI_API_KEY''"
  shows "fst (get_ai_insights w [] calls) = not_configured \<and> not_configured \<noteq> no_data"
  using assms by (simp add: get_ai_insights_def not_configured_def no_data_def)

theorem credential_check_before_empty_check_witness:
  "fst (get_ai_insights quiet_world [] []) = not_configured \<and> not_configured \<noteq> no_data"
  by (rule credential_check_before_empty_check) (simp add: quiet_world_def truthy_def)

section \<open>The trend endpoint without its parameters\<close>

text \<open>
  C8. When the origin or the destination parameter is missing (or empty), the trend
  endpoint answers with status 400 and a JSON body that has an error field, and it makes
  no outbound call: no token exchange and no search.
\<close>

theorem api_missing_parameter:
  assumes "origin_arg = None \<or> origin_arg = Some [] \<or>
           destination_arg = None \<or> destination_arg = Some []"
  shows "api_price_trend w origin_arg destination_arg calls =
           (Json_error 400 ''Missing origin or destination parameters'', calls)"
  using assms by (auto simp: api_price_trend_def truthy_def)

theorem api_missing_parameter_witness:
  "api_price_trend quiet_world None (Some ''SYD'') [] =
     (Json_error 400 ''Missing origin or destination parameters'', [])"
  by (rule api_missing_parameter) simp

section \<open>The fetch loops\<close>

lemma trend_loop_no_offers:
  assumes "\<forall>i\<in>set days. search_endpoint w tok oc dc (date_after w i) = Returned [] \<or>
             search_endpoint w tok oc dc (date_after w i) = RequestException"
  shows "trend_loop w tok oc dc days df calls =
           (Inr df, calls @ map (\<lambda>i. Search tok oc dc (date_after w i)) days)"
  using assms
proof (induction days arbitrary: df calls)
  case Nil
  then show ?case by simp
next
  case (Cons i days)
  from Cons.prems have here: "search_flight_deals w tok oc dc (date_after w i) calls =
      ([], calls @ [Search tok oc dc (date_after w i)])"
    by (auto simp: search_flight_deals_def)
  from Cons.prems have rest: "\<forall>i\<in>set days. search_endpoint w tok oc dc (date_after w i) = Returned [] \<or>
             search_endpoint w tok oc dc (date_after w i) = RequestException"
    by simp
  show ?case
    by (simp add: here Cons.IH [OF rest])
qed

section \<open>The trend endpoint when the provider has no offers\<close>

text \<open>
  C7. When origin and destination are both supplied, the token exchange has given a token
  and the provider returns no offers (an empty list or a failed request) for each of the
  30 queried dates, the trend endpoint answers with empty labels, empty data and the title
  "No Trend Data for X to Y": not an error. The log shows the token exchange and the 30
  searches.
\<close>

theorem api_no_offers:
  assumes "origin_arg = Some X" and "destination_arg = Some Y" and "X \<noteq> []" and "Y \<noteq> []"
    and "token_endpoint w = Returned (Some tok)" and "tok \<noteq> []"
    and "\<forall>i\<in>set [1..<31]. search_endpoint w tok X Y (date_after w i) = Returned [] \<or>
             search_endpoint w tok X Y (date_after w i) = RequestException"
  shows "api_price_trend w origin_arg destination_arg calls =
           (Json_trend [] [] (''No Trend Data for '' @ X @ '' to '' @ Y),
            calls @ TokenRequest # map (\<lambda>i. Search tok X Y (date_after w i)) [1..<31])"
proof -
  have tok: "get_amadeus_access_token w calls = (Some tok, calls @ [TokenRequest])"
    using assms(5) by (simp add: get_amadeus_access_token_def)
  have loop: "trend_loop w tok X Y [1..<31] [] (calls @ [TokenRequest]) =
      (Inr [], (calls @ [TokenRequest]) @ map (\<lambda>i. Search tok X Y (date_after w i)) [1..<31])"
    by (rule trend_loop_no_offers) (rule assms(7))
  show ?thesis
    using assms(1-4,6) tok loop by (simp add: api_price_trend_def truthy_def del: upt.simps)
qed

theorem api_no_offers_witness:
  "fst (api_price_trend quiet_world (Some ''MEL'') (Some ''SYD'') []) =
     Json_trend [] [] ''No Trend Data for MEL to SYD''"
proof -
  have "api_price_trend quiet_world (Some ''MEL'') (Some ''SYD'') [] =
           (Json_trend [] [] (''No Trend Data for '' @ ''MEL'' @ '' to '' @ ''SYD''),
            [] @ TokenRequest # map (\<lambda>i. Search ''token'' ''MEL'' ''SYD'' (date_after quiet_world i)) [1..<31])"
    by (rule api_no_offers [where tok = "''token''"]) (simp_all add: quiet_world_def)
  then show ?thesis by simp
qed

section \<open>The page route with an unknown destination\<close>

lemma normalize_offer_priced:
  "priced a offer \<Longrightarrow> \<exists>r. normalize_offer a oc dc offer = Inr r \<and> price r \<noteq> NaN"
  unfolding priced_def normalize_offer_def bind_err_def
  by (auto split: sum.splits)

lemma normalize_all_priced:
  "list_all (priced a) offers \<Longrightarrow>
     \<exists>df. normalize_all a oc dc offers = Inr df \<and> (\<forall>r\<in>set df. price r \<noteq> NaN)"
proof (induction offers)
  case Nil
  then show ?case by simp
next
  case (Cons offer offers)
  then obtain r df where "normalize_offer a oc dc offer = Inr r" and "price r \<noteq> NaN"
    and "normalize_all a oc dc offers = Inr df" and "\<forall>r\<in>set df. price r \<noteq> NaN"
    using normalize_offer_priced [of a offer oc dc] by auto
  then show ?case by (simp add: bind_err_def)
qed

lemma process_priced:
  "list_all (priced a) offers \<Longrightarrow>
     \<exists>df. process_flight_data a offers oc dc = Inr df \<and> (\<forall>r\<in>set df. price r \<noteq> NaN)"
  using normalize_all_priced [of a offers oc dc] by (simp add: process_flight_data_def)

lemma collect_all_Inr:
  "\<forall>m\<in>set ms. \<exists>r. m = Inr r \<Longrightarrow> \<exists>rs. collect ms = Inr rs"
proof (induction ms)
  case Nil
  show ?case by simp
next
  case (Cons m ms)
  then obtain r rs where "m = Inr r" and "collect ms = Inr rs" by auto
  then show ?case by (simp add: bind_err_def)
qed

lemma numbers_not_Nil:
  "s \<noteq> [] \<Longrightarrow> \<forall>p\<in>set s. snd p \<noteq> NaN \<Longrightarrow> numbers s \<noteq> []"
proof (cases s)
  case Nil
  then show "s \<noteq> [] \<Longrightarrow> numbers s \<noteq> []" by simp
next
  case (Cons p ps)
  assume "\<forall>p\<in>set s. snd p \<noteq> NaN"
  with Cons obtain k x where "p = (k, Num x)"
    by (cases p; cases "snd p") auto
  with Cons show "numbers s \<noteq> []"
    by (simp add: numbers_def map_filter_simps)
qed

lemma idxmin_group_priced:
  assumes "rows \<noteq> []" and "\<forall>r\<in>set rows. price r \<noteq> NaN"
  shows "\<exists>r. idxmin_group rows = Inr r"
proof -
  have "numbers (map (\<lambda>r. (r, price r)) rows) \<noteq> []"
    using assms by (intro numbers_not_Nil) auto
  then show ?thesis
    by (auto simp: idxmin_group_def split: list.splits)
qed

lemma idxmin_rows_priced:
  assumes "\<forall>r\<in>set df. price r \<noteq> NaN"
  shows "\<exists>rows. idxmin_rows df = Inr rows"
  unfolding idxmin_rows_def
proof (rule collect_all_Inr, rule ballI)
  fix m
  assume "m \<in> set (map (\<lambda>(k, rows). idxmin_group rows) (groupby departure_date df))"
  then obtain k where k: "k \<in> departure_date ` set df"
    and m: "m = idxmin_group (filter (\<lambda>r. departure_date r = k) df)"
    by (auto simp: groupby_def group_keys_def)
  from k have "filter (\<lambda>r. departure_date r = k) df \<noteq> []"
    by (auto simp: filter_empty_conv)
  moreover have "\<forall>r\<in>set (filter (\<lambda>r. departure_date r = k) df). price r \<noteq> NaN"
    using assms by simp
  ultimately show "\<exists>r. m = Inr r"
    unfolding m by (rule idxmin_group_priced)
qed

lemma search_priced:
  assumes "\<forall>t oc dc day offers. search_endpoint w t oc dc day = Returned offers \<longrightarrow>
             list_all (priced (arith w)) offers"
  shows "search_flight_deals w tok oc dc day calls =
           (fst (search_flight_deals w tok oc dc day []), calls @ [Search tok oc dc day])
         \<and> list_all (priced (arith w)) (fst (search_flight_deals w tok oc dc day []))"
  using assms
  by (cases "search_endpoint w tok oc dc day") (auto simp: search_flight_deals_def)

lemma snapshot_loop_priced:
  assumes "\<forall>t oc dc day offers. search_endpoint w t oc dc day = Returned offers \<longrightarrow>
             list_all (priced (arith w)) offers"
  shows "snapshot_loop w tok dc (date_after w 1) origins df0 calls =
           (Inr (df0 @ snapshot_frame w tok dc origins),
            calls @ map (\<lambda>oc. Search tok oc dc (date_after w 1)) origins)"
proof (induction origins arbitrary: df0 calls)
  case Nil
  then show ?case by (simp add: snapshot_frame_def)
next
  case (Cons oc origins)
  let ?offers = "fst (search_flight_deals w tok oc dc (date_after w 1) [])"
  have s: "search_flight_deals w tok oc dc (date_after w 1) calls =
        (?offers, calls @ [Search tok oc dc (date_after w 1)])"
    and pr: "list_all (priced (arith w)) ?offers"
    using search_priced [OF assms] by blast+
  obtain df where p: "process_flight_data (arith w) ?offers oc dc = Inr df"
    using process_priced [OF pr] by blast
  have frame: "snapshot_frame w tok dc (oc # origins) = df @ snapshot_frame w tok dc origins"
    using p by (simp add: snapshot_frame_def)
  show ?case
    using Cons.IH [of "df0 @ df" "calls @ [Search tok oc dc (date_after w 1)]"] s p frame
    by (cases "df = []") simp_all
qed

lemma trend_loop_priced:
  assumes "\<forall>t oc dc day offers. search_endpoint w t oc dc day = Returned offers \<longrightarrow>
             list_all (priced (arith w)) offers"
  shows "\<exists>df. trend_loop w tok oc dc days df0 calls =
           (Inr df, calls @ map (\<lambda>i. Search tok oc dc (date_after w i)) days)"
proof (induction days arbitrary: df0 calls)
  case Nil
  then show ?case by simp
next
  case (Cons i days)
  let ?offers = "fst (search_flight_deals w tok oc dc (date_after w i) [])"
  have s: "search_flight_deals w tok oc dc (date_after w i) calls =
        (?offers, calls @ [Search tok oc dc (date_after w i)])"
    and pr: "list_all (priced (arith w)) ?offers"
    using search_priced [OF assms] by blast+
  obtain df where p: "process_flight_data (arith w) ?offers oc dc = Inr df"
    and num: "\<forall>r\<in>set df. price r \<noteq> NaN"
    using process_priced [OF pr] by blast
  obtain rows where m: "idxmin_rows df = Inr rows"
    using idxmin_rows_priced [OF num] by blast
  show ?case
  proof (cases "?offers = []")
    case True
    then show ?thesis
      using Cons.IH [of df0 "calls @ [Search tok oc dc (date_after w i)]"] by (simp add: s)
  next
    case False
    show ?thesis
    proof (cases "df = []")
      case True
      with False show ?thesis
        using Cons.IH [of df0 "calls @ [Search tok oc dc (date_after w i)]"] by (simp add: s p)
    next
      case nonempty: False
      with False show ?thesis
        using Cons.IH [of "df0 @ rows" "calls @ [Search tok oc dc (date_after w i)]"]
        by (simp add: s p m)
    qed
  qed
qed

text \<open>The log only grows.\<close>

lemma snapshot_loop_log:
  "\<exists>rest. snd (snapshot_loop w tok dc day origins df0 calls) = calls @ rest"
proof (induction origins arbitrary: df0 calls)
  case Nil
  show ?case by simp
next
  case (Cons oc origins)
  obtain offers where s: "search_flight_deals w tok oc dc day calls =
      (offers, calls @ [Search tok oc dc day])"
    by (cases "search_endpoint w tok oc dc day") (auto simp: search_flight_deals_def)
  show ?case
  proof (cases "process_flight_data (arith w) offers oc dc")
    case (Inl err)
    with s show ?thesis by simp
  next
    case (Inr df)
    obtain rest where "snd (snapshot_loop w tok dc day origins
        (if df \<noteq> [] then df0 @ df else df0) (calls @ [Search tok oc dc day])) =
        (calls @ [Search tok oc dc day]) @ rest"
      using Cons.IH by blast
    with s Inr show ?thesis by simp
  qed
qed

lemma snapshot_loop_first_search:
  "\<exists>rest. snd (snapshot_loop w tok dc day (oc # origins) df0 calls) =
     calls @ [Search tok oc dc day] @ rest"
proof -
  obtain offers where s: "search_flight_deals w tok oc dc day calls =
      (offers, calls @ [Search tok oc dc day])"
    by (cases "search_endpoint w tok oc dc day") (auto simp: search_flight_deals_def)
  show ?thesis
  proof (cases "process_flight_data (arith w) offers oc dc")
    case (Inl err)
    with s show ?thesis by simp
  next
    case (Inr df)
    obtain rest where "snd (snapshot_loop w tok dc day origins
        (if df \<noteq> [] then df0 @ df else df0) (calls @ [Search tok oc dc day])) =
        (calls @ [Search tok oc dc day]) @ rest"
      using snapshot_loop_log by blast
    with s Inr show ?thesis by simp
  qed
qed

lemma trend_loop_log:
  "\<exists>rest. snd (trend_loop w tok oc dc days df0 calls) = calls @ rest"
proof (induction days arbitrary: df0 calls)
  case Nil
  show ?case by simp
next
  case (Cons i days)
  obtain offers where s: "search_flight_deals w tok oc dc (date_after w i) calls =
      (offers, calls @ [Search tok oc dc (date_after w i)])"
    by (cases "search_endpoint w tok oc dc (date_after w i)") (auto simp: search_flight_deals_def)
  have ih: "\<exists>rest. snd (trend_loop w tok oc dc days df1 (calls @ [Search tok oc dc (date_after w i)])) =
      calls @ [Search tok oc dc (date_after w i)] @ rest" for df1
    using Cons.IH [of df1 "calls @ [Search tok oc dc (date_after w i)]"] by simp
  show ?case
    using s ih by (auto split: sum.splits)
qed

lemma get_ai_insights_log:
  "snd (get_ai_insights w df calls) = calls \<or>
   (\<exists>prompt. snd (get_ai_insights w df calls) = calls @ [Generate prompt])"
  by (auto simp: get_ai_insights_def Let_def split: generated.splits)

lemma render_page_log:
  "snd (render_page w dc origins pr tr calls) = calls \<or>
   (\<exists>prompt. snd (render_page w dc origins pr tr calls) = calls @ [Generate prompt])"
  using get_ai_insights_log [of w "route_aggregation (arith w) pr" calls]
  by (simp add: render_page_def Let_def)

lemma origin_cities_unknown:
  "destination_city \<notin> set (map fst CITIES) \<Longrightarrow>
     origin_cities destination_city = [''SYD'', ''MEL'', ''BNE'', ''PER'', ''ADL'', ''CBR'', ''HBA'']"
  by (auto simp: origin_cities_def CITIES_def)

lemma index_no_client_error: "\<not> client_error (fst (index w destination_field calls))"
  unfolding index_def Let_def
  by (auto simp: render_page_def Let_def split: prod.splits sum.splits list.splits)

lemma render_page_fields:
  "\<exists>p. fst (render_page w dc origins pr tr calls) = Page p \<and>
       selected_destination p = dc \<and> cities p = CITIES \<and>
       popular_routes p =
         (if pr = [] then None
          else Some (map (\<lambda>(origin_code, _). cities_get_default origin_code @ '' -> ''
                              @ cities_get_default dc) (route_aggregation (arith w) pr),
                     map snd (route_aggregation (arith w) pr),
                     map fst (route_aggregation (arith w) pr)))"
  by (simp add: render_page_def Let_def)

text \<open>
  C10. The page route does not validate the destination. For a destination that is none of
  the seven configured codes the origin list is all seven cities and the response is never
  a client error. Once a token is obtained the route goes on to search, SYD first. When the
  provider's offers are all priced, the route searches tomorrow's offers from each of the
  seven cities, then the 30 days from SYD, and renders the page for that destination, the
  routes chart being the route aggregation of the seven cities' records.
\<close>

theorem index_unknown_destination:
  assumes "destination_city \<notin> set (map fst CITIES)"
  shows "origin_cities destination_city = [''SYD'', ''MEL'', ''BNE'', ''PER'', ''ADL'', ''CBR'', ''HBA'']
    \<and> \<not> client_error (fst (index w (Some destination_city) calls))
    \<and> (token_endpoint w = Returned (Some tok) \<and> tok \<noteq> [] \<longrightarrow>
         (\<exists>rest. snd (index w (Some destination_city) calls) =
            calls @ [TokenRequest, Search tok ''SYD'' destination_city (date_after w 1)] @ rest))
    \<and> (token_endpoint w = Returned (Some tok) \<and> tok \<noteq> [] \<and>
        (\<forall>t oc dc day offers. search_endpoint w t oc dc day = Returned offers \<longrightarrow>
           list_all (priced (arith w)) offers) \<longrightarrow>
         (\<exists>p rest.
            index w (Some destination_city) calls =
              (Page p,
               calls @ TokenRequest #
                 map (\<lambda>oc. Search tok oc destination_city (date_after w 1))
                     [''SYD'', ''MEL'', ''BNE'', ''PER'', ''ADL'', ''CBR'', ''HBA''] @
                 map (\<lambda>i. Search tok ''SYD'' destination_city (date_after w i)) [1..<31] @ rest)
            \<and> (rest = [] \<or> (\<exists>prompt. rest = [Generate prompt]))
            \<and> selected_destination p = destination_city
            \<and> cities p = CITIES
            \<and> popular_routes p =
                (if snapshot_frame w tok destination_city
                      [''SYD'', ''MEL'', ''BNE'', ''PER'', ''ADL'', ''CBR'', ''HBA''] = []
                 then None
                 else Some
                   (map (\<lambda>(origin_code, _). cities_get_default origin_code @ '' -> ''
                            @ cities_get_default destination_city)
                      (route_aggregation (arith w) (snapshot_frame w tok destination_city
                         [''SYD'', ''MEL'', ''BNE'', ''PER'', ''ADL'', ''CBR'', ''HBA''])),
                    map snd (route_aggregation (arith w) (snapshot_frame w tok destination_city
                         [''SYD'', ''MEL'', ''BNE'', ''PER'', ''ADL'', ''CBR'', ''HBA''])),
                    map fst (route_aggregation (arith w) (snapshot_frame w tok destination_city
                         [''SYD'', ''MEL'', ''BNE'', ''PER'', ''ADL'', ''CBR'', ''HBA'']))))))"
proof (intro conjI impI)
  let ?codes = "[''SYD'', ''MEL'', ''BNE'', ''PER'', ''ADL'', ''CBR'', ''HBA'']"
  show oc: "origin_cities destination_city = ?codes"
    using assms by (rule origin_cities_unknown)
  show "\<not> client_error (fst (index w (Some destination_city) calls))"
    by (rule index_no_client_error)
  {
    assume tok: "token_endpoint w = Returned (Some tok) \<and> tok \<noteq> []"
    then have tk: "get_amadeus_access_token w calls = (Some tok, calls @ [TokenRequest])"
      by (simp add: get_amadeus_access_token_def)
    obtain r1 where l1: "snd (snapshot_loop w tok destination_city (date_after w 1) ?codes []
        (calls @ [TokenRequest])) =
        (calls @ [TokenRequest]) @ [Search tok ''SYD'' destination_city (date_after w 1)] @ r1"
      using snapshot_loop_first_search by blast
    show "\<exists>rest. snd (index w (Some destination_city) calls) =
            calls @ [TokenRequest, Search tok ''SYD'' destination_city (date_after w 1)] @ rest"
    proof (cases "snapshot_loop w tok destination_city (date_after w 1) ?codes []
        (calls @ [TokenRequest])")
      case (Pair res calls2)
      with l1 have c2: "calls2 =
          calls @ [TokenRequest, Search tok ''SYD'' destination_city (date_after w 1)] @ r1"
        by simp
      show ?thesis
      proof (cases res)
        case (Inl err)
        with Pair tk tok oc c2 show ?thesis
          by (simp add: index_def Let_def truthy_def del: upt.simps)
      next
        case (Inr df)
        obtain r2 where l2: "snd (trend_loop w tok ''SYD'' destination_city [1..<31] [] calls2) =
            calls2 @ r2"
          using trend_loop_log by blast
        show ?thesis
        proof (cases "trend_loop w tok ''SYD'' destination_city [1..<31] [] calls2")
          case tl: (Pair res3 calls3)
          with l2 have c3: "calls3 = calls2 @ r2" by simp
          show ?thesis
          proof (cases res3)
            case (Inl err)
            with Pair Inr tl tk tok oc c2 c3 show ?thesis
              by (simp add: index_def Let_def truthy_def del: upt.simps)
          next
            case inr3: (Inr tf)
            obtain r4 where l4: "snd (render_page w destination_city ?codes df tf calls3) =
                calls3 @ r4"
              using render_page_log [of w destination_city ?codes df tf calls3] by auto
            have "snd (index w (Some destination_city) calls) =
                snd (render_page w destination_city ?codes df tf calls3)"
              using Pair Inr tl inr3 tk tok oc
              by (simp add: index_def Let_def truthy_def del: upt.simps)
            with l4 c2 c3 show ?thesis by simp
          qed
        qed
      qed
    qed
  }
  {
    assume hyp: "token_endpoint w = Returned (Some tok) \<and> tok \<noteq> [] \<and>
        (\<forall>t oc dc day offers. search_endpoint w t oc dc day = Returned offers \<longrightarrow>
           list_all (priced (arith w)) offers)"
    then have pr: "\<forall>t oc dc day offers. search_endpoint w t oc dc day = Returned offers \<longrightarrow>
           list_all (priced (arith w)) offers"
      by blast
    from hyp have tk: "get_amadeus_access_token w calls = (Some tok, calls @ [TokenRequest])"
      by (simp add: get_amadeus_access_token_def)
    let ?c2 = "(calls @ [TokenRequest]) @
        map (\<lambda>oc. Search tok oc destination_city (date_after w 1)) ?codes"
    have sn: "snapshot_loop w tok destination_city (date_after w 1) ?codes [] (calls @ [TokenRequest]) =
        (Inr ([] @ snapshot_frame w tok destination_city ?codes), ?c2)"
      by (rule snapshot_loop_priced [OF pr])
    let ?c3 = "?c2 @ map (\<lambda>i. Search tok ''SYD'' destination_city (date_after w i)) [1..<31]"
    obtain tf where tl: "trend_loop w tok ''SYD'' destination_city [1..<31] [] ?c2 = (Inr tf, ?c3)"
      using trend_loop_priced [OF pr] by blast
    let ?page = "render_page w destination_city ?codes
        (snapshot_frame w tok destination_city ?codes) tf ?c3"
    have ix: "index w (Some destination_city) calls = ?page"
      using tk hyp sn tl oc by (simp add: index_def Let_def truthy_def del: upt.simps)
    obtain p where p: "fst ?page = Page p" and sd: "selected_destination p = destination_city"
      and ci: "cities p = CITIES"
      and po: "popular_routes p =
         (if snapshot_frame w tok destination_city ?codes = [] then None
          else Some (map (\<lambda>(origin_code, _). cities_get_default origin_code @ '' -> ''
                              @ cities_get_default destination_city)
                         (route_aggregation (arith w) (snapshot_frame w tok destination_city ?codes)),
                     map snd (route_aggregation (arith w) (snapshot_frame w tok destination_city ?codes)),
                     map fst (route_aggregation (arith w) (snapshot_frame w tok destination_city ?codes))))"
      using render_page_fields [of w destination_city ?codes
          "snapshot_frame w tok destination_city ?codes" tf ?c3] by blast
    obtain rest where lg: "snd ?page = ?c3 @ rest"
      and rest: "rest = [] \<or> (\<exists>prompt. rest = [Generate prompt])"
      using render_page_log [of w destination_city ?codes
          "snapshot_frame w tok destination_city ?codes" tf ?c3] by auto
    have "index w (Some destination_city) calls =
        (Page p, calls @ TokenRequest #
                 map (\<lambda>oc. Search tok oc destination_city (date_after w 1)) ?codes @
                 map (\<lambda>i. Search tok ''SYD'' destination_city (date_after w i)) [1..<31] @ rest)"
      using ix p lg by (simp add: prod_eq_iff del: upt.simps)
    with rest sd ci po
    show "\<exists>p rest.
            index w (Some destination_city) calls =
              (Page p,
               calls @ TokenRequest #
                 map (\<lambda>oc. Search tok oc destination_city (date_after w 1)) ?codes @
                 map (\<lambda>i. Search tok ''SYD'' destination_city (date_after w i)) [1..<31] @ rest)
            \<and> (rest = [] \<or> (\<exists>prompt. rest = [Generate prompt]))
            \<and> selected_destination p = destination_city
            \<and> cities p = CITIES
            \<and> popular_routes p =
                (if snapshot_frame w tok destination_city ?codes = []
                 then None
                 else Some
                   (map (\<lambda>(origin_code, _). cities_get_default origin_code @ '' -> ''
                            @ cities_get_default destination_city)
                      (route_aggregation (arith w) (snapshot_frame w tok destination_city ?codes)),
                    map snd (route_aggregation (arith w) (snapshot_frame w tok destination_city ?codes)),
                    map fst (route_aggregation (arith w) (snapshot_frame w tok destination_city ?codes))))"
      by blast
  }
qed

theorem index_unknown_destination_witness:
  "origin_cities ''LHR'' = [''SYD'', ''MEL'', ''BNE'', ''PER'', ''ADL'', ''CBR'', ''HBA'']
    \<and> \<not> client_error (fst (index quiet_world (Some ''LHR'') []))
    \<and> (\<exists>p rest. index quiet_world (Some ''LHR'') [] =
          (Page p,
           [] @ TokenRequest #
             map (\<lambda>oc. Search ''token'' oc ''LHR'' (date_after quiet_world 1))
                 [''SYD'', ''MEL'', ''BNE'', ''PER'', ''ADL'', ''CBR'', ''HBA''] @
             map (\<lambda>i. Search ''token'' ''SYD'' ''LHR'' (date_after quiet_world i)) [1..<31] @ rest)
          \<and> selected_destination p = ''LHR'')"
proof -
  have unknown: "''LHR'' \<notin> set (map fst CITIES)"
    by (simp add: CITIES_def)
  have hyp: "token_endpoint quiet_world = Returned (Some ''token'') \<and> ''token'' \<noteq> [] \<and>
        (\<forall>t oc dc day offers. search_endpoint quiet_world t oc dc day = Returned offers \<longrightarrow>
           list_all (priced (arith quiet_world)) offers)"
    by (simp add: quiet_world_def)
  from index_unknown_destination [OF unknown, of quiet_world "[]" "''token''"] hyp
  show ?thesis
    by blast
qed

section \<open>Grouping, rounding and sorting\<close>


lemma distinct_group_keys: "distinct (group_keys key df)"
  by (simp add: group_keys_def)

lemma set_group_keys: "set (group_keys key df) = key ` set df"
  by (simp add: group_keys_def)

lemma groupby_price_mean_eq:
  "groupby_price_mean a key df = map (\<lambda>k. (k, group_mean a key df k)) (group_keys key df)"
  by (simp add: groupby_price_mean_def groupby_def group_mean_def)

lemma keys_groupby_price_mean: "map fst (groupby_price_mean a key df) = group_keys key df"
  by (simp add: groupby_price_mean_eq comp_def)

lemma values_groupby_price_mean:
  "(k, v) \<in> set (groupby_price_mean a key df) \<Longrightarrow> v = group_mean a key df k"
  by (auto simp: groupby_price_mean_eq)

lemma numbers_Nil: "numbers [] = []"
  by (simp add: numbers_def map_filter_simps)

lemma numbers_Cons:
  "numbers ((k, v) # s) = (case v of NaN \<Rightarrow> numbers s | Num x \<Rightarrow> (k, x) # numbers s)"
  by (cases v) (simp_all add: numbers_def map_filter_simps)

lemma numbers_back:
  "map (\<lambda>(k, x). (k, Num x)) (numbers s) = filter (\<lambda>(k, v). v \<noteq> NaN) s"
proof (induction s)
  case Nil
  show ?case by (simp add: numbers_Nil)
next
  case (Cons p s)
  obtain k v where p: "p = (k, v)" by (cases p)
  show ?case
    unfolding p using Cons by (cases v) (simp_all add: numbers_Cons)
qed

lemma mset_sort_values: "mset (sort_values s) = mset s"
proof -
  have "mset (map (\<lambda>(k, x). (k, Num x)) (sort_key snd (numbers s))) =
        mset (map (\<lambda>(k, x). (k, Num x)) (numbers s))"
    by simp
  also have "\<dots> = mset (filter (\<lambda>(k, v). v \<noteq> NaN) s)"
    by (simp only: numbers_back)
  finally have "mset (sort_values s) =
      mset (filter (\<lambda>(k, v). v \<noteq> NaN) s) + mset (filter (\<lambda>(k, v). v = NaN) s)"
    by (simp add: sort_values_def)
  also have "\<dots> = mset s"
    by (induction s) auto
  finally show ?thesis .
qed

lemma set_sort_values: "set (sort_values s) = set s"
  using mset_sort_values [of s] by (rule mset_eq_setD)

lemma distinct_keys_sort_values: "distinct (map fst (sort_values s)) = distinct (map fst s)"
proof -
  have "mset (map fst (sort_values s)) = mset (map fst s)"
    by (simp add: mset_sort_values)
  then show ?thesis
    by (rule mset_eq_imp_distinct_iff)
qed

lemma float_le_Num: "float_le (Num x) (Num y) = (x \<le> y)"
  by (simp add: float_le_def)

lemma float_le_NaN: "float_le v NaN"
  by (simp add: float_le_def)

lemma ascending_all_NaN: "\<forall>v\<in>set ns. v = NaN \<Longrightarrow> sorted_wrt float_le ns"
  by (induction ns) (auto simp: float_le_NaN)

lemma ascending_numbers_then_NaN:
  "sorted xs \<Longrightarrow> \<forall>v\<in>set ns. v = NaN \<Longrightarrow> sorted_wrt float_le (map Num xs @ ns)"
  by (auto simp: sorted_wrt_append sorted_wrt_map float_le_Num float_le_NaN ascending_all_NaN)

lemma values_sort_values:
  "map snd (sort_values s) =
     map Num (map snd (sort_key snd (numbers s))) @ map snd (filter (\<lambda>(k, v). v = NaN) s)"
  by (simp add: sort_values_def comp_def case_prod_beta)

lemma ascending_sort_values: "sorted_wrt float_le (map snd (sort_values s))"
  unfolding values_sort_values
  by (rule ascending_numbers_then_NaN) (auto simp: sorted_sort_key)

lemma round_float_le:
  assumes "\<forall>x y. x \<le> y \<longrightarrow> round2 a x \<le> round2 a y" and "float_le u v"
  shows "float_le (round_float a u) (round_float a v)"
  using assms by (cases u; cases v) (simp_all add: float_le_def round_float_def)

lemma keys_round_series: "map fst (round_series a s) = map fst s"
  by (induction s) (auto simp: round_series_def)

lemma values_round_series: "map snd (round_series a s) = map (round_float a) (map snd s)"
  by (induction s) (auto simp: round_series_def)

lemma ascending_round_series:
  assumes "\<forall>x y. x \<le> y \<longrightarrow> round2 a x \<le> round2 a y"
    and "sorted_wrt float_le (map snd s)"
  shows "sorted_wrt float_le (map snd (round_series a s))"
proof -
  have "sorted_wrt (\<lambda>u v. float_le (round_float a u) (round_float a v)) (map snd s)"
    using assms(2) by (rule sorted_wrt_mono_rel [rotated]) (rule round_float_le [OF assms(1)])
  then show ?thesis
    by (simp add: values_round_series sorted_wrt_map)
qed

lemma values_round_series_mem:
  "(k, v) \<in> set (round_series a s) \<Longrightarrow> \<exists>m. (k, m) \<in> set s \<and> v = round_float a m"
  by (auto simp: round_series_def)

section \<open>The route aggregation\<close>

lemma keys_route_means:
  "distinct (map fst (route_means a df)) \<and> set (map fst (route_means a df)) = origin ` set df"
proof -
  have "set (map fst (route_means a df)) = fst ` set (groupby_price_mean a origin df)"
    by (simp add: route_means_def set_sort_values)
  also have "\<dots> = set (map fst (groupby_price_mean a origin df))"
    by simp
  also have "\<dots> = origin ` set df"
    by (simp only: keys_groupby_price_mean set_group_keys)
  finally show ?thesis
    by (simp add: route_means_def distinct_keys_sort_values keys_groupby_price_mean
        distinct_group_keys)
qed

lemma values_route_means:
  "(k, m) \<in> set (route_means a df) \<Longrightarrow> m = group_mean a origin df k"
  by (simp add: route_means_def set_sort_values values_groupby_price_mean)

lemma route_means_in_order:
  "map (\<lambda>(k, v). group_mean a origin df k) (route_aggregation a df) = map snd (route_means a df)"
proof -
  have "map (\<lambda>(k, v). group_mean a origin df k) (route_aggregation a df) =
        map (\<lambda>(k, v). group_mean a origin df k) (route_means a df)"
    by (simp add: route_aggregation_def round_series_def case_prod_beta comp_def)
  also have "\<dots> = map snd (route_means a df)"
    by (rule map_cong) (auto dest: values_route_means)
  finally show ?thesis .
qed

lemma values_route_aggregation:
  assumes "(k, v) \<in> set (route_aggregation a df)"
  shows "v = round_float a (group_mean a origin df k)"
proof -
  from assms obtain m where "(k, m) \<in> set (route_means a df)" and "v = round_float a m"
    unfolding route_aggregation_def by (blast dest: values_round_series_mem)
  then show ?thesis
    using values_route_means [of k m a df] by simp
qed

lemma ascending_route_aggregation:
  assumes "\<forall>x y. x \<le> y \<longrightarrow> round2 a x \<le> round2 a y"
  shows "sorted_wrt float_le (map snd (route_aggregation a df))"
  unfolding route_aggregation_def route_means_def
  using assms by (rule ascending_round_series) (rule ascending_sort_values)

lemma sample_round2_mono: "x \<le> y \<Longrightarrow> sample_round2 x \<le> sample_round2 y"
proof -
  have bounds: "\<lfloor>z\<rfloor> \<le> round_half_even z \<and> round_half_even z \<le> \<lfloor>z\<rfloor> + 1" for z
    by (simp add: round_half_even_def Let_def)
  assume le: "x \<le> y"
  have "round_half_even (x * 100) \<le> round_half_even (y * 100)"
  proof (cases "\<lfloor>x * 100\<rfloor> < \<lfloor>y * 100\<rfloor>")
    case True
    then show ?thesis
      using bounds [of "x * 100"] bounds [of "y * 100"] by linarith
  next
    case False
    moreover have "\<lfloor>x * 100\<rfloor> \<le> \<lfloor>y * 100\<rfloor>"
      using le by (intro floor_mono) simp
    ultimately have "\<lfloor>x * 100\<rfloor> = \<lfloor>y * 100\<rfloor>" by linarith
    then show ?thesis
      using le by (auto simp: round_half_even_def Let_def)
  qed
  then show ?thesis
    by (simp add: sample_round2_def divide_right_mono)
qed

text \<open>
  C2. For every frame (the non-empty ones among them) the origins in the output of the
  route aggregation are exactly the origins of the input records, each once; the value at
  an origin is the rounded mean price of that origin's records; and the entries ascend by
  average price (a mean that is \<open>NaN\<close> comes last). The rounded values ascend as well,
  rounding being monotone.
\<close>

theorem route_aggregation_sorted_complete:
  "distinct (map fst (route_aggregation a df))
   \<and> set (map fst (route_aggregation a df)) = origin ` set df
   \<and> (\<forall>(k, v) \<in> set (route_aggregation a df).
         v = round_float a (mean a (map price (filter (\<lambda>r. origin r = k) df))))
   \<and> sorted_wrt float_le
         (map (\<lambda>(k, v). mean a (map price (filter (\<lambda>r. origin r = k) df))) (route_aggregation a df))
   \<and> ((\<forall>x y. x \<le> y \<longrightarrow> round2 a x \<le> round2 a y) \<longrightarrow>
         sorted_wrt float_le (map snd (route_aggregation a df)))"
proof (intro conjI impI)
  show "distinct (map fst (route_aggregation a df))"
    using keys_route_means [of a df] by (simp add: route_aggregation_def keys_round_series)
  show "set (map fst (route_aggregation a df)) = origin ` set df"
    using keys_route_means [of a df] by (simp only: route_aggregation_def keys_round_series)
  show "\<forall>(k, v) \<in> set (route_aggregation a df).
         v = round_float a (mean a (map price (filter (\<lambda>r. origin r = k) df)))"
    using values_route_aggregation [of _ _ a df] by (auto simp: group_mean_def)
  show "sorted_wrt float_le
         (map (\<lambda>(k, v). mean a (map price (filter (\<lambda>r. origin r = k) df))) (route_aggregation a df))"
    using route_means_in_order [of a df] ascending_sort_values [of "groupby_price_mean a origin df"]
    by (simp add: group_mean_def route_means_def)
next
  assume "\<forall>x y. x \<le> y \<longrightarrow> round2 a x \<le> round2 a y"
  then show "sorted_wrt float_le (map snd (route_aggregation a df))"
    by (rule ascending_route_aggregation)
qed

theorem route_aggregation_sorted_complete_witness:
  "distinct (map fst (route_aggregation sample_arithmetic mixed_records))
   \<and> set (map fst (route_aggregation sample_arithmetic mixed_records)) =
       {''SYD'', ''BNE'', ''PER'', ''ADL''}
   \<and> sorted_wrt float_le (map snd (route_aggregation sample_arithmetic mixed_records))"
proof -
  have origins: "origin ` set mixed_records = {''SYD'', ''BNE'', ''PER'', ''ADL''}"
    by (auto simp: mixed_records_def sample_record_def)
  have mono: "\<forall>x y. x \<le> y \<longrightarrow> round2 sample_arithmetic x \<le> round2 sample_arithmetic y"
    by (simp add: sample_arithmetic_def sample_round2_mono)
  note at_sample = route_aggregation_sorted_complete [of sample_arithmetic mixed_records]
  from at_sample have "distinct (map fst (route_aggregation sample_arithmetic mixed_records))"
    by blast
  moreover from at_sample
  have "set (map fst (route_aggregation sample_arithmetic mixed_records)) = origin ` set mixed_records"
    by blast
  moreover from at_sample mono
  have "sorted_wrt float_le (map snd (route_aggregation sample_arithmetic mixed_records))"
    by blast
  ultimately show ?thesis
    unfolding origins by blast
qed









section \<open>The trend aggregation\<close>




section \<open>The offer normalizer\<close>

lemma split_on_first: "subscript0 (split_on d s) = Inr (takeWhile (\<lambda>c. c \<noteq> d) s)"
  by (induction s) (auto simp: subscript0_def split: list.splits)

lemma digit_not_T: "is_digit c \<Longrightarrow> c \<noteq> CHR ''T''"
  by (auto simp: is_digit_def)

lemma iso_date_no_T: "iso_date s \<Longrightarrow> CHR ''T'' \<notin> set s"
  by (induction s rule: iso_date.induct) (auto dest: digit_not_T)

lemma takeWhile_up_to: "d \<notin> set a \<Longrightarrow> takeWhile (\<lambda>c. c \<noteq> d) (a @ d # b) = a"
  by (induction a) auto

lemma iso_timestamp_date:
  assumes "iso_timestamp s"
  shows "takeWhile (\<lambda>c. c \<noteq> CHR ''T'') s = take 10 s"
proof -
  from assms have d: "iso_date (take 10 s)" and t: "take 1 (drop 10 s) = ''T''"
    by (simp_all add: iso_timestamp_def)
  from t obtain rest where "drop 10 s = CHR ''T'' # rest"
    by (cases "drop 10 s") auto
  then have s: "s = take 10 s @ CHR ''T'' # rest"
    by (metis append_take_drop_id)
  have "takeWhile (\<lambda>c. c \<noteq> CHR ''T'') (take 10 s @ CHR ''T'' # rest) = take 10 s"
    using iso_date_no_T [OF d] by (rule takeWhile_up_to)
  with s show ?thesis by simp
qed

lemma normalize_offer_fields:
  assumes "normalize_offer a oc dc offer = Inr r"
  shows "\<exists>amount stamp. price_total offer = Some amount \<and> py_float a amount = Inr (price r) \<and>
           first_departure offer = Inr stamp \<and>
           departure_date r = takeWhile (\<lambda>c. c \<noteq> CHR ''T'') stamp"
  using assms
  unfolding normalize_offer_def bind_err_def getitem_def split_on_first
  by (auto split: sum.splits option.splits)

lemma normalize_all_nth:
  "normalize_all a oc dc offers = Inr df \<Longrightarrow>
     length df = length offers \<and> (\<forall>i<length df. normalize_offer a oc dc (offers ! i) = Inr (df ! i))"
proof (induction offers arbitrary: df)
  case Nil
  then show ?case by simp
next
  case (Cons offer offers)
  from Cons.prems obtain r rs where r: "normalize_offer a oc dc offer = Inr r"
    and rs: "normalize_all a oc dc offers = Inr rs" and df: "df = r # rs"
    by (auto simp: bind_err_def split: sum.splits)
  from Cons.IH [OF rs] r df show ?case
    by (auto simp: nth_Cons split: nat.splits)
qed

lemma process_flight_data_nth:
  "process_flight_data a flight_data oc dc = Inr df \<Longrightarrow>
     length df = length flight_data \<and>
     (\<forall>i<length df. normalize_offer a oc dc (flight_data ! i) = Inr (df ! i))"
  using normalize_all_nth [of a oc dc flight_data df]
  by (auto simp: process_flight_data_def split: if_splits)

text \<open>
  C5, as the code has it. When the normalizer returns, it returns one record per offer; the
  record's price is the value \<open>float()\<close> returns for the offer's total-price field, with no
  check of its sign; its departure_date is the first segment's departure timestamp up to
  the first \<open>T\<close>, so it contains no \<open>T\<close>, and it is the ISO calendar date whenever the
  timestamp is an ISO date followed by \<open>T\<close>.
\<close>

theorem normalized_record_fields:
  assumes "process_flight_data a flight_data oc dc = Inr df"
  shows "length df = length flight_data \<and>
    (\<forall>i<length df. \<exists>amount stamp.
        price_total (flight_data ! i) = Some amount \<and>
        py_float a amount = Inr (price (df ! i)) \<and>
        first_departure (flight_data ! i) = Inr stamp \<and>
        departure_date (df ! i) = takeWhile (\<lambda>c. c \<noteq> CHR ''T'') stamp \<and>
        CHR ''T'' \<notin> set (departure_date (df ! i)) \<and>
        (iso_timestamp stamp \<longrightarrow>
           departure_date (df ! i) = take 10 stamp \<and> iso_date (departure_date (df ! i))))"
proof (intro conjI allI impI)
  show "length df = length flight_data"
    using process_flight_data_nth [OF assms] by simp
next
  fix i assume "i < length df"
  then have "normalize_offer a oc dc (flight_data ! i) = Inr (df ! i)"
    using process_flight_data_nth [OF assms] by simp
  then obtain amount stamp where a: "price_total (flight_data ! i) = Some amount"
    and p: "py_float a amount = Inr (price (df ! i))"
    and s: "first_departure (flight_data ! i) = Inr stamp"
    and d: "departure_date (df ! i) = takeWhile (\<lambda>c. c \<noteq> CHR ''T'') stamp"
    using normalize_offer_fields by blast
  have noT: "CHR ''T'' \<notin> set (departure_date (df ! i))"
    unfolding d using set_takeWhileD by fastforce
  have iso: "departure_date (df ! i) = take 10 stamp \<and> iso_date (departure_date (df ! i))"
    if "iso_timestamp stamp"
    using that iso_timestamp_date [OF that] d by (simp add: iso_timestamp_def)
  show "\<exists>amount stamp.
        price_total (flight_data ! i) = Some amount \<and>
        py_float a amount = Inr (price (df ! i)) \<and>
        first_departure (flight_data ! i) = Inr stamp \<and>
        departure_date (df ! i) = takeWhile (\<lambda>c. c \<noteq> CHR ''T'') stamp \<and>
        CHR ''T'' \<notin> set (departure_date (df ! i)) \<and>
        (iso_timestamp stamp \<longrightarrow>
           departure_date (df ! i) = take 10 stamp \<and> iso_date (departure_date (df ! i)))"
    using a p s d noT iso by blast
qed

lemmas normalizer_defs = process_flight_data_def normalize_offer_def first_departure_def bind_err_def
      getitem_def subscript0_def sample_offer_def sample_record_def sample_arithmetic_def
      sample_float_def

theorem normalized_record_fields_witness:
  "process_flight_data sample_arithmetic [sample_offer ''123.5'' ''2025-01-02T10:00:00''] ''MEL'' ''SYD'' =
     Inr [sample_record ''MEL'' ''SYD'' (247 / 2) ''2025-01-02'']
   \<and> py_float sample_arithmetic ''123.5'' =
       Inr (price (sample_record ''MEL'' ''SYD'' (247 / 2) ''2025-01-02''))
   \<and> iso_date (departure_date (sample_record ''MEL'' ''SYD'' (247 / 2) ''2025-01-02''))"
proof -
  let ?offer = "sample_offer ''123.5'' ''2025-01-02T10:00:00''"
  let ?r = "sample_record ''MEL'' ''SYD'' (247 / 2) ''2025-01-02''"
  have run: "process_flight_data sample_arithmetic [?offer] ''MEL'' ''SYD'' = Inr [?r]"
    by (simp add: normalizer_defs)
  from normalized_record_fields [OF run]
  have "\<exists>amount stamp.
        price_total ([?offer] ! 0) = Some amount \<and>
        py_float sample_arithmetic amount = Inr (price ([?r] ! 0)) \<and>
        first_departure ([?offer] ! 0) = Inr stamp \<and>
        departure_date ([?r] ! 0) = takeWhile (\<lambda>c. c \<noteq> CHR ''T'') stamp \<and>
        CHR ''T'' \<notin> set (departure_date ([?r] ! 0)) \<and>
        (iso_timestamp stamp \<longrightarrow>
           departure_date ([?r] ! 0) = take 10 stamp \<and> iso_date (departure_date ([?r] ! 0)))"
    by simp
  then obtain amount stamp where a: "price_total ?offer = Some amount"
    and p: "py_float sample_arithmetic amount = Inr (price ?r)"
    and s: "first_departure ?offer = Inr stamp"
    and iso: "iso_timestamp stamp \<longrightarrow> iso_date (departure_date ?r)"
    by auto
  from a have amount: "amount = ''123.5''"
    by (simp add: sample_offer_def)
  from s have stamp: "stamp = ''2025-01-02T10:00:00''"
    by (simp add: normalizer_defs)
  have "iso_timestamp ''2025-01-02T10:00:00''"
    by (simp add: iso_timestamp_def is_digit_def)
  then show ?thesis
    using run p iso unfolding amount stamp by blast
qed

text \<open>
  An offer with every key in place and the total \<open>-5.00\<close>, for which \<open>float()\<close> returns -5.0,
  is normalized to a record of price -5: the price of a normalized record can be negative.
\<close>

theorem negative_total_counterexample:
  "process_flight_data sample_arithmetic [sample_offer ''-5.00'' ''2025-01-02T10:00:00''] ''MEL'' ''SYD'' =
     Inr [sample_record ''MEL'' ''SYD'' (- 5) ''2025-01-02'']
   \<and> price (sample_record ''MEL'' ''SYD'' (- 5) ''2025-01-02'') = Num (- 5)
   \<and> (- 5 :: rat) < 0"
  by (simp add: normalizer_defs)

section \<open>The markup post-processing\<close>

subsection \<open>The bold substitution works line by line\<close>

lemma find_close_shorter: "find_close cs = Some (inner, rest) \<Longrightarrow> cs = inner @ ''**'' @ rest"
proof (induction cs arbitrary: inner rest)
  case Nil
  then show ?case by simp
next
  case (Cons c cs)
  show ?case
  proof (cases "c = CHR ''*'' \<and> take 1 cs = ''*''")
    case True
    then obtain cs' where "cs = CHR ''*'' # cs'"
      by (cases cs) auto
    with True Cons.prems show ?thesis by simp
  next
    case False
    with Cons.prems obtain inner' where "find_close cs = Some (inner', rest)" and "inner = c # inner'"
      by (auto split: if_splits option.splits)
    with Cons.IH show ?thesis by simp
  qed
qed

lemma find_close_before_newline:
  "find_close (cs @ CHR 0x0A # b) =
     (case find_close cs of None \<Rightarrow> None | Some (inner, rest) \<Rightarrow> Some (inner, rest @ CHR 0x0A # b))"
proof (induction cs)
  case Nil
  then show ?case by simp
next
  case (Cons c cs)
  show ?case
  proof (cases cs)
    case Nil
    then show ?thesis by simp
  next
    case (Cons d ds)
    then show ?thesis
      using Cons.IH by (simp split: option.splits)
  qed
qed

lemma bold_sub_newline: "bold_sub (CHR 0x0A # b) = CHR 0x0A # bold_sub b"
  by (cases b) simp_all

lemma bold_sub_before_newline:
  "bold_sub (a @ CHR 0x0A # b) = bold_sub a @ CHR 0x0A # bold_sub b"
proof (induction a rule: bold_sub.induct)
  case 1
  show ?case by (simp add: bold_sub_newline)
next
  case (2 c)
  show ?case by (simp add: bold_sub_newline)
next
  case (3 c d cs)
  show ?case
  proof (cases "c = CHR ''*'' \<and> d = CHR ''*''")
    case True
    show ?thesis
    proof (cases "find_close cs")
      case None
      with True 3 show ?thesis
        by (simp add: find_close_before_newline)
    next
      case (Some p)
      obtain inner rest where p: "p = (inner, rest)" by (cases p)
      with True Some 3 show ?thesis
        by (simp add: find_close_before_newline)
    qed
  next
    case False
    with 3 show ?thesis by auto
  qed
qed

lemma set_bold_sub: "set (bold_sub s) \<subseteq> set s \<union> set ''<strong></strong>''"
proof (induction s rule: bold_sub.induct)
  case 1
  show ?case by simp
next
  case (2 c)
  show ?case by simp
next
  case (3 c d cs)
  show ?case
  proof (cases "c = CHR ''*'' \<and> d = CHR ''*''")
    case True
    show ?thesis
    proof (cases "find_close cs")
      case None
      with True 3 show ?thesis by auto
    next
      case (Some p)
      obtain inner rest where p: "p = (inner, rest)" by (cases p)
      from Some p have "find_close cs = Some (inner, rest)"
        by simp
      then have cs: "cs = inner @ ''**'' @ rest"
        by (rule find_close_shorter)
      have "set (bold_sub rest) \<subseteq> set rest \<union> set ''<strong></strong>''"
        using 3(2) [OF True Some p [symmetric]] .
      with True Some p cs show ?thesis by auto
    qed
  next
    case False
    with 3 show ?thesis by auto
  qed
qed

lemma bold_sub_no_newline: "CHR 0x0A \<notin> set s \<Longrightarrow> CHR 0x0A \<notin> set (bold_sub s)"
  using set_bold_sub [of s] by auto

lemma split_on_whole: "d \<notin> set a \<Longrightarrow> split_on d a = [a]"
  by (induction a) auto

lemma split_on_at: "d \<notin> set a \<Longrightarrow> split_on d (a @ d # b) = a # split_on d b"
  by (induction a) auto

lemma split_on_bold_sub:
  "split_on (CHR 0x0A) (bold_sub t) = map bold_sub (split_on (CHR 0x0A) t)"
proof (induction t rule: length_induct)
  case (1 t)
  show ?case
  proof (cases "CHR 0x0A \<in> set t")
    case False
    then show ?thesis
      by (simp add: split_on_whole bold_sub_no_newline)
  next
    case True
    then obtain a b where t: "t = a @ CHR 0x0A # b" and a: "CHR 0x0A \<notin> set a"
      by (auto dest: split_list_first)
    from t have "length b < length t" by simp
    with 1 have "split_on (CHR 0x0A) (bold_sub b) = map bold_sub (split_on (CHR 0x0A) b)"
      by blast
    with a show ?thesis
      unfolding t by (simp add: bold_sub_before_newline split_on_at bold_sub_no_newline)
  qed
qed

lemma bold_sub_other: "c \<noteq> CHR ''*'' \<Longrightarrow> bold_sub (c # s) = c # bold_sub s"
  by (cases s) simp_all

lemma bold_sub_star_other: "d \<noteq> CHR ''*'' \<Longrightarrow> bold_sub (c # d # s) = c # d # bold_sub s"
  by (simp add: bold_sub_other)

lemma bold_sub_spaces: "\<forall>c\<in>set s. isspace c \<Longrightarrow> bold_sub s = s"
proof (induction s)
  case Nil
  show ?case by simp
next
  case (Cons c s)
  then have "c \<noteq> CHR ''*''" by (auto simp: isspace_def)
  with Cons show ?case by (simp add: bold_sub_other)
qed

lemma bold_sub_keeps_ink:
  "\<exists>c\<in>set s. \<not> isspace c \<Longrightarrow> \<exists>c\<in>set (bold_sub s). \<not> isspace c"
proof (induction s rule: bold_sub.induct)
  case 1
  then show ?case by simp
next
  case (2 c)
  then show ?case by simp
next
  case (3 c d cs)
  show ?case
  proof (cases "c = CHR ''*'' \<and> d = CHR ''*''")
    case True
    then have ink: "\<not> isspace c" by (simp add: isspace_def)
    show ?thesis
    proof (cases "find_close cs")
      case None
      with True ink show ?thesis by simp
    next
      case (Some p)
      obtain inner rest where p: "p = (inner, rest)" by (cases p)
      have "\<not> isspace (CHR ''<'')" by (simp add: isspace_def)
      with True Some p show ?thesis by auto
    qed
  next
    case False
    then have eq: "bold_sub (c # d # cs) = c # bold_sub (d # cs)" by auto
    show ?thesis
    proof (cases "isspace c")
      case True
      with "3.prems" have "\<exists>x\<in>set (d # cs). \<not> isspace x" by auto
      with 3(3) False have "\<exists>x\<in>set (bold_sub (d # cs)). \<not> isspace x" by blast
      with eq show ?thesis by auto
    next
      case False
      with eq show ?thesis by auto
    qed
  qed
qed

subsection \<open>Stripping\<close>

lemma dropWhile_all_append: "\<forall>x\<in>set xs. P x \<Longrightarrow> dropWhile P (xs @ ys) = dropWhile P ys"
  by (induction xs) auto

lemma dropWhile_some_append: "\<exists>x\<in>set xs. \<not> P x \<Longrightarrow> dropWhile P (xs @ ys) = dropWhile P xs @ ys"
  by (induction xs) auto

lemma dropWhile_Nil_iff: "dropWhile P xs = [] \<longleftrightarrow> (\<forall>x\<in>set xs. P x)"
  by (induction xs) auto

lemma rstrip_Nil_iff: "rstrip s = [] \<longleftrightarrow> (\<forall>c\<in>set s. isspace c)"
  unfolding rstrip_def rev_is_Nil_conv dropWhile_Nil_iff by simp

lemma lstrip_Nil_iff: "lstrip s = [] \<longleftrightarrow> (\<forall>c\<in>set s. isspace c)"
  unfolding lstrip_def by (rule dropWhile_Nil_iff)

lemma rstrip_Nil: "rstrip [] = []"
  by (simp add: rstrip_def)

lemma rstrip_Cons:
  "rstrip (c # s) = (if rstrip s = [] \<and> isspace c then [] else c # rstrip s)"
proof (cases "\<forall>x\<in>set s. isspace x")
  case True
  then have "\<forall>x\<in>set (rev s). isspace x" by simp
  then have "dropWhile isspace (rev s @ [c]) = dropWhile isspace [c]"
    by (rule dropWhile_all_append)
  then have "rstrip (c # s) = rev (dropWhile isspace [c])"
    by (simp only: rstrip_def rev.simps)
  moreover from True have "rstrip s = []"
    by (simp only: rstrip_Nil_iff)
  ultimately show ?thesis by simp
next
  case False
  then have "\<exists>x\<in>set (rev s). \<not> isspace x" by simp
  then have "dropWhile isspace (rev s @ [c]) = dropWhile isspace (rev s) @ [c]"
    by (rule dropWhile_some_append)
  then have "rstrip (c # s) = c # rstrip s"
    by (simp only: rstrip_def rev.simps rev_append append.simps)
  moreover from False have "rstrip s \<noteq> []"
    by (simp only: rstrip_Nil_iff) simp
  ultimately show ?thesis by simp
qed

lemma lstrip_Cons: "lstrip (c # s) = (if isspace c then lstrip s else c # s)"
  by (simp add: lstrip_def)

lemma lstrip_Nil: "lstrip [] = []"
  by (simp add: lstrip_def)

lemma lstrip_rstrip: "lstrip (rstrip s) = rstrip (lstrip s)"
proof (induction s)
  case Nil
  show ?case by (simp add: lstrip_Nil rstrip_Nil)
next
  case (Cons c s)
  show ?case
  proof (cases "isspace c")
    case True
    show ?thesis
    proof (cases "rstrip s = []")
      case True
      with Cons have "rstrip (lstrip s) = []"
        by (simp add: lstrip_Nil)
      with True \<open>isspace c\<close> show ?thesis
        by (simp add: rstrip_Cons lstrip_Cons lstrip_Nil)
    next
      case False
      with Cons \<open>isspace c\<close> show ?thesis
        by (simp add: rstrip_Cons lstrip_Cons)
    qed
  next
    case False
    then show ?thesis
      by (simp add: rstrip_Cons lstrip_Cons)
  qed
qed

lemma rstrip_rev: "rstrip (rev s) = rev (lstrip s)"
  by (simp add: rstrip_def lstrip_def)

lemma lstrip_rev: "lstrip (rev s) = rev (rstrip s)"
  by (simp add: rstrip_def lstrip_def)

lemma strip_rev: "strip (rev s) = rev (strip s)"
  by (simp add: strip_def lstrip_rev rstrip_rev lstrip_rstrip)

lemma strip_Nil_iff: "strip s = [] \<longleftrightarrow> (\<forall>c\<in>set s. isspace c)"
proof
  assume "strip s = []"
  then have "lstrip (rstrip s) = []"
    by (simp add: strip_def lstrip_rstrip)
  then have all: "\<forall>c\<in>set (rstrip s). isspace c"
    by (simp only: lstrip_Nil_iff)
  have "rstrip s = []"
  proof (rule ccontr)
    assume ne: "rstrip s \<noteq> []"
    then have "dropWhile isspace (rev s) \<noteq> []"
      by (simp add: rstrip_def)
    then have "\<not> isspace (hd (dropWhile isspace (rev s)))"
      by (rule hd_dropWhile)
    moreover from ne have "last (rstrip s) = hd (dropWhile isspace (rev s))"
      by (simp add: rstrip_def last_rev)
    moreover from ne have "last (rstrip s) \<in> set (rstrip s)"
      by simp
    ultimately show False using all by auto
  qed
  then show "\<forall>c\<in>set s. isspace c"
    by (simp only: rstrip_Nil_iff)
next
  assume "\<forall>c\<in>set s. isspace c"
  then have "lstrip s = []"
    by (simp only: lstrip_Nil_iff)
  then show "strip s = []"
    by (simp add: strip_def rstrip_Nil)
qed

lemma strip_space_Cons: "isspace c \<Longrightarrow> strip (c # s) = strip s"
  by (simp add: strip_def lstrip_Cons)

lemma strip_Nil: "strip [] = []"
  by (simp add: strip_def lstrip_Nil rstrip_Nil)

subsection \<open>Lines\<close>

lemma split_on_not_Nil: "split_on d s \<noteq> []"
  by (induction s) (auto split: list.splits)

lemma split_on_snoc:
  "split_on d (s @ [c]) =
     (if c = d then split_on d s @ [[]]
      else butlast (split_on d s) @ [last (split_on d s) @ [c]])"
proof (induction s)
  case Nil
  show ?case by simp
next
  case (Cons x s)
  obtain l ls where sp: "split_on d s = l # ls"
    using split_on_not_Nil [of d s] by (cases "split_on d s") auto
  show ?case
    using Cons sp by (auto split: list.splits)
qed

lemma split_on_rev: "split_on d (rev s) = rev (map rev (split_on d s))"
proof (induction s)
  case Nil
  show ?case by simp
next
  case (Cons c s)
  obtain l ls where sp: "split_on d s = l # ls"
    using split_on_not_Nil [of d s] by (cases "split_on d s") auto
  show ?case
    using Cons sp by (simp add: split_on_snoc)
qed

lemma nonblank_lines_rev: "nonblank_lines (rev s) = rev (map rev (nonblank_lines s))"
proof -
  have "filter (\<lambda>l. l \<noteq> []) (map strip (rev (map rev xs))) =
        rev (map rev (filter (\<lambda>l. l \<noteq> []) (map strip xs)))" for xs
    by (induction xs) (auto simp: strip_rev)
  then show ?thesis
    by (simp add: nonblank_lines_def split_on_rev)
qed

lemma nonblank_lines_lstrip: "nonblank_lines (dropWhile isspace s) = nonblank_lines s"
proof (induction s)
  case Nil
  show ?case by simp
next
  case (Cons c s)
  show ?case
  proof (cases "isspace c")
    case False
    then show ?thesis by simp
  next
    case True
    obtain l ls where sp: "split_on (CHR 0x0A) s = l # ls"
      using split_on_not_Nil [of "CHR 0x0A" s] by (cases "split_on (CHR 0x0A) s") auto
    have "nonblank_lines (c # s) = nonblank_lines s"
      using True sp by (simp add: nonblank_lines_def strip_space_Cons strip_Nil)
    with True Cons show ?thesis by simp
  qed
qed

lemma nonblank_lines_strip: "nonblank_lines (strip s) = nonblank_lines s"
proof -
  have "nonblank_lines (strip s) = nonblank_lines (rev (dropWhile isspace (rev (dropWhile isspace s))))"
    by (simp add: strip_def lstrip_def rstrip_def)
  also have "\<dots> = rev (map rev (nonblank_lines (dropWhile isspace (rev (dropWhile isspace s)))))"
    by (rule nonblank_lines_rev)
  also have "\<dots> = rev (map rev (nonblank_lines (rev (dropWhile isspace s))))"
    by (simp only: nonblank_lines_lstrip)
  also have "\<dots> = nonblank_lines (dropWhile isspace s)"
    by (simp add: nonblank_lines_rev rev_map comp_def)
  also have "\<dots> = nonblank_lines s"
    by (rule nonblank_lines_lstrip)
  finally show ?thesis .
qed

subsection \<open>The loop over the lines\<close>

lemma md_line_blank: "strip l = [] \<Longrightarrow> md_line st l = st"
  by (cases st) simp

lemma md_line_flag: "strip l \<noteq> [] \<Longrightarrow> snd (md_line st l) = is_list_item (strip l)"
  by (cases st) (simp add: is_list_item_def Let_def)

lemma foldl_md_line_flag:
  "snd (foldl md_line st ls) =
     (if filter (\<lambda>l. l \<noteq> []) (map strip ls) = [] then snd st
      else is_list_item (last (filter (\<lambda>l. l \<noteq> []) (map strip ls))))"
proof (induction ls rule: rev_induct)
  case Nil
  show ?case by simp
next
  case (snoc l ls)
  show ?case
  proof (cases "strip l = []")
    case True
    with snoc show ?thesis by (simp add: md_line_blank)
  next
    case False
    then show ?thesis by (simp add: md_line_flag)
  qed
qed

lemma open_list_is_closed:
  assumes "ends_with_list_item (strip (bold_sub text))"
  shows "\<exists>pre. markdown_to_html text = pre @ ''</ul>''"
proof -
  obtain html_output in_list
    where run: "foldl md_line ([], False) (split_on (CHR 0x0A) (strip (bold_sub text))) = (html_output, in_list)"
    by (cases "foldl md_line ([], False) (split_on (CHR 0x0A) (strip (bold_sub text)))")
  have "snd (foldl md_line ([], False) (split_on (CHR 0x0A) (strip (bold_sub text))))"
    using assms unfolding foldl_md_line_flag ends_with_list_item_def nonblank_lines_def by simp
  with run have "in_list" by simp
  with run have "markdown_to_html text = concat html_output @ ''</ul>''"
    by (simp add: markdown_to_html_def)
  then show ?thesis by blast
qed

lemma is_list_item_rstrip:
  "is_list_item (rstrip m) \<longleftrightarrow>
     (\<exists>x r. m = x # CHR '' '' # r \<and> (x = CHR ''*'' \<or> x = CHR ''-'') \<and> (\<exists>c\<in>set r. \<not> isspace c))"
proof (cases m)
  case Nil
  then show ?thesis by (simp add: rstrip_Nil is_list_item_def startswith_def)
next
  case (Cons a m')
  show ?thesis
  proof (cases m')
    case Nil
    with Cons show ?thesis
      by (simp add: rstrip_Cons rstrip_Nil is_list_item_def startswith_def)
  next
    case (Cons b r)
    have sp: "isspace (CHR '' '')" by (simp add: isspace_def)
    show ?thesis
    proof (cases "rstrip r = []")
      case True
      then have noink: "\<forall>c\<in>set r. isspace c" by (simp only: rstrip_Nil_iff)
      have "\<not> is_list_item (rstrip (a # b # r))"
        using True sp by (auto simp: rstrip_Cons is_list_item_def startswith_def)
      with noink show ?thesis
        unfolding \<open>m = a # m'\<close> \<open>m' = b # r\<close> by auto
    next
      case False
      then have ink: "\<exists>c\<in>set r. \<not> isspace c" by (simp only: rstrip_Nil_iff) simp
      from False have "rstrip (a # b # r) = a # b # rstrip r"
        by (simp add: rstrip_Cons)
      with ink show ?thesis
        unfolding \<open>m = a # m'\<close> \<open>m' = b # r\<close>
        by (auto simp: is_list_item_def startswith_def)
    qed
  qed
qed

lemma bold_sub_space_prefix:
  "\<forall>c\<in>set ws. isspace c \<Longrightarrow> bold_sub (ws @ s) = ws @ bold_sub s"
proof (induction ws)
  case Nil
  show ?case by simp
next
  case (Cons c ws)
  then have "c \<noteq> CHR ''*''" by (auto simp: isspace_def)
  with Cons show ?case by (simp add: bold_sub_other)
qed

lemma lstrip_bold_sub: "lstrip (bold_sub l) = lstrip (bold_sub (lstrip l))"
proof -
  have l: "l = takeWhile isspace l @ lstrip l"
    by (simp add: lstrip_def)
  have ws: "\<forall>c\<in>set (takeWhile isspace l). isspace c"
    by (auto dest: set_takeWhileD)
  have "bold_sub l = takeWhile isspace l @ bold_sub (lstrip l)"
    using bold_sub_space_prefix [OF ws, of "lstrip l"] l by simp
  then show ?thesis
    using dropWhile_all_append [OF ws, of "bold_sub (lstrip l)"] by (simp add: lstrip_def)
qed

lemma list_item_survives_bold_sub:
  assumes "is_list_item (strip l)"
  shows "is_list_item (strip (bold_sub l))"
proof -
  from assms obtain x r where m: "lstrip l = x # CHR '' '' # r"
    and x: "x = CHR ''*'' \<or> x = CHR ''-''" and ink: "\<exists>c\<in>set r. \<not> isspace c"
    unfolding strip_def is_list_item_rstrip by blast
  have "bold_sub (x # CHR '' '' # r) = x # CHR '' '' # bold_sub r"
    by (rule bold_sub_star_other) simp
  moreover from x have "\<not> isspace x" by (auto simp: isspace_def)
  ultimately have "lstrip (bold_sub l) = x # CHR '' '' # bold_sub r"
    using lstrip_bold_sub [of l] m by (simp add: lstrip_Cons)
  moreover have "\<exists>c\<in>set (bold_sub r). \<not> isspace c"
    using ink by (rule bold_sub_keeps_ink)
  ultimately show ?thesis
    unfolding strip_def is_list_item_rstrip using x by blast
qed

lemma blank_iff_bold_sub: "strip (bold_sub l) = [] \<longleftrightarrow> strip l = []"
proof
  assume "strip (bold_sub l) = []"
  then have "\<forall>c\<in>set (bold_sub l). isspace c" by (simp only: strip_Nil_iff)
  then have "\<forall>c\<in>set l. isspace c" using bold_sub_keeps_ink [of l] by blast
  then show "strip l = []" by (simp only: strip_Nil_iff)
next
  assume "strip l = []"
  then have all: "\<forall>c\<in>set l. isspace c" by (simp only: strip_Nil_iff)
  then have "bold_sub l = l" by (rule bold_sub_spaces)
  with \<open>strip l = []\<close> show "strip (bold_sub l) = []" by simp
qed

lemma last_nonblank_survives:
  assumes "filter (\<lambda>l. l \<noteq> []) (map strip ls) \<noteq> []"
    and "is_list_item (last (filter (\<lambda>l. l \<noteq> []) (map strip ls)))"
  shows "filter (\<lambda>l. l \<noteq> []) (map strip (map bold_sub ls)) \<noteq> [] \<and>
         is_list_item (last (filter (\<lambda>l. l \<noteq> []) (map strip (map bold_sub ls))))"
  using assms
proof (induction ls rule: rev_induct)
  case Nil
  then show ?case by simp
next
  case (snoc l ls)
  show ?case
  proof (cases "strip l = []")
    case True
    with snoc show ?thesis by (simp add: blank_iff_bold_sub)
  next
    case False
    with snoc.prems have "is_list_item (strip l)" by simp
    then have "is_list_item (strip (bold_sub l))" by (rule list_item_survives_bold_sub)
    with False show ?thesis by (simp add: blank_iff_bold_sub)
  qed
qed

lemma ends_with_list_item_processed:
  assumes "ends_with_list_item text"
  shows "ends_with_list_item (strip (bold_sub text))"
proof -
  have "nonblank_lines (strip (bold_sub text)) =
        filter (\<lambda>l. l \<noteq> []) (map strip (map bold_sub (split_on (CHR 0x0A) text)))"
    by (simp only: nonblank_lines_strip) (simp only: nonblank_lines_def split_on_bold_sub)
  with last_nonblank_survives [of "split_on (CHR 0x0A) text"] assms show ?thesis
    by (simp add: ends_with_list_item_def nonblank_lines_def)
qed

text \<open>
  C4. The markup post-processing turns \<open>**Save** now\<close> into
  \<open><p><strong>Save</strong> now</p>\<close> and the three lines \<open>* A\<close>, \<open>* B\<close>, \<open>C\<close> into
  \<open><ul><li>A</li><li>B</li></ul><p>C</p>\<close>; and for every input whose last non-blank line
  is a list item, the output ends with the closing list tag.
\<close>

theorem markdown_examples_and_open_list:
  "markdown_to_html ''**Save** now'' = ''<p><strong>Save</strong> now</p>''
   \<and> markdown_to_html ''* A\<newline>* B\<newline>C'' = ''<ul><li>A</li><li>B</li></ul><p>C</p>''
   \<and> (ends_with_list_item text \<longrightarrow> (\<exists>pre. markdown_to_html text = pre @ ''</ul>''))"
proof (intro conjI impI)
  show "markdown_to_html ''**Save** now'' = ''<p><strong>Save</strong> now</p>''"
    by code_simp
  show "markdown_to_html ''* A\<newline>* B\<newline>C'' = ''<ul><li>A</li><li>B</li></ul><p>C</p>''"
    by code_simp
next
  assume "ends_with_list_item text"
  then have "ends_with_list_item (strip (bold_sub text))"
    by (rule ends_with_list_item_processed)
  then show "\<exists>pre. markdown_to_html text = pre @ ''</ul>''"
    by (rule open_list_is_closed)
qed

theorem markdown_examples_and_open_list_witness:
  "ends_with_list_item open_list_text \<and> (\<exists>pre. markdown_to_html open_list_text = pre @ ''</ul>'')"
proof -
  have "ends_with_list_item open_list_text"
    by code_simp
  with markdown_examples_and_open_list [of open_list_text] show ?thesis
    by blast
qed

end
